theory Spec2Isabelle
  imports Complex_Main
begin

section \<open>Values, errors and tensors\<close>

text \<open>
  The notebook computes on torch tensors of 32-bit floats. The development reads the
  arithmetic as exact arithmetic on the reals (the mathematical contract the notebook
  describes); the one non-finite value the code creates on purpose, the \<open>-inf\<close> of the
  causal mask, is a value of its own. Rounding, overflow, underflow and NaN are outside
  this reading.

  Every exception the Python raises is a value of the type \<open>error\<close>: a failing
  dictionary lookup is \<open>KeyError\<close>, an integer division by zero is
  \<open>ZeroDivisionError\<close>, a failing unpacking of a shape is \<open>ValueError\<close>, an index out
  of range is \<open>IndexError\<close>, and every shape or size complaint of torch is
  \<open>RuntimeError\<close>.
\<close>

datatype error = KeyError | ZeroDivisionError | ValueError | IndexError | RuntimeError

datatype xreal = NegInf | Fin real

fun xadd :: "xreal \<Rightarrow> xreal \<Rightarrow> xreal" where
  "xadd (Fin a) (Fin b) = Fin (a + b)"
| "xadd _ _ = NegInf"

fun xdiv :: "xreal \<Rightarrow> real \<Rightarrow> xreal" where
  "xdiv (Fin a) c = Fin (a / c)"
| "xdiv NegInf c = NegInf"

fun xexp :: "xreal \<Rightarrow> real" where
  "xexp (Fin a) = exp a"
| "xexp NegInf = 0"

text \<open>
  A tensor is what torch keeps of it: the sizes, the strides and the storage the strides
  index into. \<open>transpose\<close> and \<open>view\<close> return a tensor on the same storage with other
  sizes and strides; every other operation of the notebook allocates a fresh contiguous
  tensor, built here by \<open>mk\<close> from the value at each index. The strides of a tensor
  without elements are never read.
\<close>

record 'a tensor =
  shape :: "nat list"
  strides :: "nat list"
  storage :: "nat \<Rightarrow> 'a"

definition numel :: "nat list \<Rightarrow> nat" where
  "numel sh = prod_list sh"

fun contiguous_strides :: "nat list \<Rightarrow> nat list" where
  "contiguous_strides [] = []"
| "contiguous_strides (d # ds) = numel ds # contiguous_strides ds"

fun offset :: "nat list \<Rightarrow> nat list \<Rightarrow> nat" where
  "offset (s # ss) (i # is) = i * s + offset ss is"
| "offset _ _ = 0"

fun unravel :: "nat list \<Rightarrow> nat \<Rightarrow> nat list" where
  "unravel [] p = []"
| "unravel (d # ds) p = (p div numel ds) # unravel ds (p mod numel ds)"

definition elem :: "'a tensor \<Rightarrow> nat list \<Rightarrow> 'a" where
  "elem t idx = storage t (offset (strides t) idx)"

definition mk :: "nat list \<Rightarrow> (nat list \<Rightarrow> 'a) \<Rightarrow> 'a tensor" where
  "mk sh f = \<lparr>shape = sh, strides = contiguous_strides sh, storage = (\<lambda>p. f (unravel sh p))\<rparr>"

fun in_range :: "nat list \<Rightarrow> nat list \<Rightarrow> bool" where
  "in_range [] [] = True"
| "in_range (d # ds) (i # is) = (i < d \<and> in_range ds is)"
| "in_range _ _ = False"

subsection \<open>transpose\<close>

text \<open>
  \<open>t.transpose(d0, d1)\<close> swaps two sizes and the two strides; a negative dimension
  counts from the end, a dimension out of range raises IndexError.
\<close>

definition wrap_dim :: "nat \<Rightarrow> int \<Rightarrow> error + nat" where
  "wrap_dim n d =
     (if - int n \<le> d \<and> d < int n then Inr (nat (if d < 0 then d + int n else d))
      else Inl IndexError)"

definition transpose_t :: "'a tensor \<Rightarrow> int \<Rightarrow> int \<Rightarrow> error + 'a tensor" where
  "transpose_t t d0 d1 =
     (case wrap_dim (length (shape t)) d0 of Inl e \<Rightarrow> Inl e
      | Inr i \<Rightarrow>
     (case wrap_dim (length (shape t)) d1 of Inl e \<Rightarrow> Inl e
      | Inr j \<Rightarrow>
        Inr \<lparr>shape = (shape t)[i := shape t ! j, j := shape t ! i],
             strides = (strides t)[i := strides t ! j, j := strides t ! i],
             storage = storage t\<rparr>))"

subsection \<open>view\<close>

text \<open>
  \<open>t.view(*sizes)\<close> first completes the requested sizes (one \<open>-1\<close> is inferred from
  the number of elements, any other negative size is refused, the product must be the
  number of elements), then looks for strides that read the same storage under the new
  sizes. torch walks the dimensions of the tensor from the last to the first, cuts them
  into chunks that are contiguous in memory, and asks that each chunk be filled exactly
  by a run of the new dimensions; when a new dimension would span two chunks the view is
  refused ("view size is not compatible with input tensor's size and stride").
  The lists below are in reverse order (last dimension first).
\<close>

definition infer_size :: "int list \<Rightarrow> nat \<Rightarrow> error + nat list" where
  "infer_size req n =
     (if \<exists>d \<in> set req. d < - 1 then Inl RuntimeError
      else case filter (\<lambda>d. d = - 1) req of
        [] \<Rightarrow> if prod_list req = int n then Inr (map nat req) else Inl RuntimeError
      | [_] \<Rightarrow>
          (let p = nat (prod_list (filter (\<lambda>d. d \<noteq> - 1) req)) in
           if p = 0 \<or> n mod p \<noteq> 0 then Inl RuntimeError
           else Inr (map (\<lambda>d. if d = - 1 then n div p else nat d) req))
      | _ \<Rightarrow> Inl RuntimeError)"

fun fill_chunk :: "nat \<Rightarrow> nat \<Rightarrow> nat \<Rightarrow> nat list \<Rightarrow> nat list \<times> nat \<times> nat list" where
  "fill_chunk base tn vn [] = ([], vn, [])"
| "fill_chunk base tn vn (d # ds) =
     (if vn < tn \<or> d = 1
      then (case fill_chunk base tn (vn * d) ds of
              (ss, vn', rest) \<Rightarrow> ((vn * base) # ss, vn', rest))
      else ([], vn, d # ds))"

fun chunks :: "(nat \<times> nat) list \<Rightarrow> nat \<Rightarrow> nat \<Rightarrow> nat list \<Rightarrow> nat list option" where
  "chunks [] base tn vds = (if vds = [] then Some [] else None)"
| "chunks ((sz, st) # older) base tn vds =
     (let tn' = tn * sz in
      case older of
        [] \<Rightarrow>
          (case fill_chunk base tn' 1 vds of
             (ss, vn, vds') \<Rightarrow>
               if vn \<noteq> tn' then None else if vds' \<noteq> [] then None else Some ss)
      | (sz', st') # _ \<Rightarrow>
          if sz' \<noteq> 1 \<and> st' \<noteq> tn' * base
          then (case fill_chunk base tn' 1 vds of
                  (ss, vn, vds') \<Rightarrow>
                    if vn \<noteq> tn' then None
                    else map_option (\<lambda>r. ss @ r) (chunks older st' 1 vds'))
          else chunks older base tn' vds)"

definition computeStride :: "nat list \<Rightarrow> nat list \<Rightarrow> nat list \<Rightarrow> nat list option" where
  "computeStride oldshape oldstride newshape =
     (if oldshape = [] then Some (replicate (length newshape) 1)
      else if numel oldshape = 0
      then (if oldshape = newshape then Some oldstride
            else Some (contiguous_strides (map (max 1) newshape)))
      else map_option rev
             (chunks (rev (zip oldshape oldstride)) (last oldstride) 1 (rev newshape)))"

definition view :: "'a tensor \<Rightarrow> int list \<Rightarrow> error + 'a tensor" where
  "view t req =
     (case infer_size req (numel (shape t)) of Inl e \<Rightarrow> Inl e
      | Inr newshape \<Rightarrow>
     (case computeStride (shape t) (strides t) newshape of None \<Rightarrow> Inl RuntimeError
      | Some st \<Rightarrow> Inr \<lparr>shape = newshape, strides = st, storage = storage t\<rparr>))"

subsection \<open>Broadcasting, pointwise operations, matmul, softmax\<close>

text \<open>
  Two shapes broadcast when, read from the last dimension, the sizes are equal or one of
  them is 1; the shorter shape is extended on the left. \<open>bidx\<close> sends an index of the
  result to the index of an operand.
\<close>

fun broadcast_rev :: "nat list \<Rightarrow> nat list \<Rightarrow> nat list option" where
  "broadcast_rev [] ys = Some ys"
| "broadcast_rev (x # xs) [] = Some (x # xs)"
| "broadcast_rev (x # xs) (y # ys) =
     (if x = y \<or> y = 1 then map_option ((#) x) (broadcast_rev xs ys)
      else if x = 1 then map_option ((#) y) (broadcast_rev xs ys)
      else None)"

definition broadcast_shapes :: "nat list \<Rightarrow> nat list \<Rightarrow> nat list option" where
  "broadcast_shapes a b = map_option rev (broadcast_rev (rev a) (rev b))"

definition bidx :: "nat list \<Rightarrow> nat list \<Rightarrow> nat list" where
  "bidx sh idx = map2 (\<lambda>d i. if d = 1 then 0 else i) sh (drop (length idx - length sh) idx)"

definition pointwise :: "('a \<Rightarrow> 'b \<Rightarrow> 'c) \<Rightarrow> 'a tensor \<Rightarrow> 'b tensor \<Rightarrow> error + 'c tensor" where
  "pointwise f a b =
     (case broadcast_shapes (shape a) (shape b) of None \<Rightarrow> Inl RuntimeError
      | Some sh \<Rightarrow>
          Inr (mk sh (\<lambda>idx. f (elem a (bidx (shape a) idx)) (elem b (bidx (shape b) idx)))))"

definition tmap :: "('a \<Rightarrow> 'b) \<Rightarrow> 'a tensor \<Rightarrow> 'b tensor" where
  "tmap f t = mk (shape t) (\<lambda>idx. f (elem t idx))"

definition unsqueeze0 :: "'a tensor \<Rightarrow> 'a tensor" where
  "unsqueeze0 t =
     \<lparr>shape = 1 # shape t,
      strides = (case (shape t, strides t) of (d # _, s # _) \<Rightarrow> d * s | _ \<Rightarrow> 1) # strides t,
      storage = storage t\<rparr>"

text \<open>
  \<open>torch.matmul\<close> is only called on two tensors of rank 4 here (each operand is a view
  to four sizes, or the product of such); the batch dimensions must agree, and the inner
  sizes must be equal. Any other pair of operands is refused.
\<close>

definition matmul :: "real tensor \<Rightarrow> real tensor \<Rightarrow> error + real tensor" where
  "matmul a b =
     (case shape a of
        [B, H, n, m] \<Rightarrow>
          (case shape b of
             [B', H', m', p] \<Rightarrow>
               if B = B' \<and> H = H' \<and> m = m'
               then Inr (mk [B, H, n, p]
                      (\<lambda>idx. \<Sum>k<m. elem a [idx ! 0, idx ! 1, idx ! 2, k] *
                                      elem b [idx ! 0, idx ! 1, k, idx ! 3]))
               else Inl RuntimeError
           | _ \<Rightarrow> Inl RuntimeError)
      | _ \<Rightarrow> Inl RuntimeError)"

text \<open>
  \<open>F.softmax(s, dim=-1)\<close>: each entry is its exponential over the sum of the
  exponentials along the last dimension; the exponential of \<open>-inf\<close> is 0.
\<close>

definition softmax :: "xreal tensor \<Rightarrow> real tensor" where
  "softmax s =
     (case shape s of
        [] \<Rightarrow> mk [] (\<lambda>idx. 1)
      | _ \<Rightarrow> mk (shape s)
               (\<lambda>idx. xexp (elem s idx) /
                        (\<Sum>j<last (shape s). xexp (elem s (butlast idx @ [j])))))"

section \<open>Configuration and layers\<close>

text \<open>
  The configuration is a Python dict from option names to integers; reading a missing
  key raises KeyError. \<open>//\<close> is floor division and raises on a zero divisor.
\<close>

type_synonym config = "string \<rightharpoonup> int"

definition config_get :: "config \<Rightarrow> string \<Rightarrow> error + int" where
  "config_get cfg k = (case cfg k of None \<Rightarrow> Inl KeyError | Some v \<Rightarrow> Inr v)"

definition floordiv :: "int \<Rightarrow> int \<Rightarrow> error + int" where
  "floordiv a b = (if b = 0 then Inl ZeroDivisionError else Inr (a div b))"

text \<open>
  \<open>nn.Linear(n_in, n_out)\<close> owns a weight of shape \<open>[n_out, n_in]\<close> and a bias of
  shape \<open>[n_out]\<close>. The values are random at construction and later set by training:
  they are a parameter of the constructor here (\<open>weight j i\<close> and \<open>bias j\<close> for
  \<open>j < n_out\<close> and \<open>i < n_in\<close>).
  A negative size is refused by the allocation. \<open>forward\<close> needs the last size of its
  input to be \<open>in_features\<close>.
\<close>

type_synonym init = "(nat \<Rightarrow> nat \<Rightarrow> real) \<times> (nat \<Rightarrow> real)"

record Linear =
  in_features :: nat
  out_features :: nat
  weight :: "nat \<Rightarrow> nat \<Rightarrow> real"
  bias :: "nat \<Rightarrow> real"

definition nn_Linear :: "init \<Rightarrow> int \<Rightarrow> int \<Rightarrow> error + Linear" where
  "nn_Linear P n_in n_out =
     (if n_in < 0 \<or> n_out < 0 then Inl RuntimeError
      else Inr \<lparr>in_features = nat n_in, out_features = nat n_out,
                weight = fst P, bias = snd P\<rparr>)"

definition Linear_forward :: "Linear \<Rightarrow> real tensor \<Rightarrow> error + real tensor" where
  "Linear_forward lin x =
     (case rev (shape x) of
        [] \<Rightarrow> Inl RuntimeError
      | n # _ \<Rightarrow>
          if n \<noteq> in_features lin then Inl RuntimeError
          else Inr (mk (butlast (shape x) @ [out_features lin])
                 (\<lambda>idx. (\<Sum>i<in_features lin. elem x (butlast idx @ [i]) * weight lin (last idx) i)
                         + bias lin (last idx))))"

section \<open>Causal self-attention\<close>

record attention_params =
  P_q :: init
  P_k :: init
  P_v :: init
  P_o :: init

record selfAttention =
  d_embed :: int
  num_head :: int
  d_head :: int
  W_q :: Linear
  W_k :: Linear
  W_v :: Linear
  W_o :: Linear

definition selfAttention_init :: "attention_params \<Rightarrow> config \<Rightarrow> error + selfAttention" where
  "selfAttention_init P cfg =
     (case config_get cfg ''d_embed'' of Inl e \<Rightarrow> Inl e | Inr de \<Rightarrow>
     (case config_get cfg ''d_head'' of Inl e \<Rightarrow> Inl e | Inr dh0 \<Rightarrow>
     (case floordiv de dh0 of Inl e \<Rightarrow> Inl e | Inr nh \<Rightarrow>
     (case floordiv de nh of Inl e \<Rightarrow> Inl e | Inr dh \<Rightarrow>
     (case nn_Linear (P_q P) de (nh * dh) of Inl e \<Rightarrow> Inl e | Inr wq \<Rightarrow>
     (case nn_Linear (P_k P) de (nh * dh) of Inl e \<Rightarrow> Inl e | Inr wk \<Rightarrow>
     (case nn_Linear (P_v P) de (nh * dh) of Inl e \<Rightarrow> Inl e | Inr wv \<Rightarrow>
     (case nn_Linear (P_o P) de de of Inl e \<Rightarrow> Inl e | Inr wo \<Rightarrow>
        Inr \<lparr>d_embed = de, num_head = nh, d_head = dh,
             W_q = wq, W_k = wk, W_v = wv, W_o = wo\<rparr>))))))))"

text \<open>
  \<open>forward\<close>, in the four stages of the source: the projections and their split into
  heads (\<open>Q\<close>, \<open>K\<close>, \<open>V\<close> of shape \<open>[B, NUM_HEAD, SEQ_LEN, D_HEAD]\<close>), the masked and scaled
  \<open>scores\<close>, the \<open>attentions_weights\<close>, and the weighted sum with its reassembly and the
  output projection. \<open>d_embed\<close> in the scaling is the last size of the input.
  The two places where torch would compute a NaN are not reached by a component that its
  constructor has built: an embedding width of 0 never arrives at the scaling (the
  constructor has divided by the head count, which is 0 then, and the projections refuse
  an input of another width), and no row of the scores is all \<open>-inf\<close> (the diagonal is
  not masked), so the sum under the softmax is positive.
\<close>

definition causal_mask :: "nat \<Rightarrow> xreal tensor" where
  "causal_mask seq_len =
     mk [seq_len, seq_len] (\<lambda>idx. if idx ! 0 + 1 \<le> idx ! 1 then NegInf else Fin 0)"

definition split_heads :: "selfAttention \<Rightarrow> nat \<Rightarrow> nat \<Rightarrow> real tensor \<Rightarrow> error + real tensor" where
  "split_heads a batch_size seq_len T =
     (case view T [int batch_size, int seq_len, num_head a, d_head a] of Inl e \<Rightarrow> Inl e
      | Inr T' \<Rightarrow> transpose_t T' 1 2)"

definition project_heads ::
  "selfAttention \<Rightarrow> real tensor \<Rightarrow> error + (real tensor \<times> real tensor \<times> real tensor)" where
  "project_heads a x =
     (case shape x of
        [batch_size, seq_len, de] \<Rightarrow>
          (case Linear_forward (W_q a) x of Inl e \<Rightarrow> Inl e | Inr Q0 \<Rightarrow>
          (case Linear_forward (W_k a) x of Inl e \<Rightarrow> Inl e | Inr K0 \<Rightarrow>
          (case Linear_forward (W_v a) x of Inl e \<Rightarrow> Inl e | Inr V0 \<Rightarrow>
          (case split_heads a batch_size seq_len Q0 of Inl e \<Rightarrow> Inl e | Inr Q \<Rightarrow>
          (case split_heads a batch_size seq_len K0 of Inl e \<Rightarrow> Inl e | Inr K \<Rightarrow>
          (case split_heads a batch_size seq_len V0 of Inl e \<Rightarrow> Inl e | Inr V \<Rightarrow>
             Inr (Q, K, V)))))))
      | _ \<Rightarrow> Inl ValueError)"

definition scores :: "selfAttention \<Rightarrow> real tensor \<Rightarrow> error + xreal tensor" where
  "scores a x =
     (case project_heads a x of Inl e \<Rightarrow> Inl e | Inr (Q, K, V) \<Rightarrow>
     (case transpose_t K (- 2) (- 1) of Inl e \<Rightarrow> Inl e | Inr KT \<Rightarrow>
     (case matmul Q KT of Inl e \<Rightarrow> Inl e | Inr QKT \<Rightarrow>
     (case pointwise (\<lambda>q m. xadd (Fin q) m) QKT (unsqueeze0 (causal_mask (shape x ! 1))) of
        Inl e \<Rightarrow> Inl e
      | Inr s \<Rightarrow> Inr (tmap (\<lambda>v. xdiv v (sqrt (real (shape x ! 2)))) s)))))"

definition attentions_weights :: "selfAttention \<Rightarrow> real tensor \<Rightarrow> error + real tensor" where
  "attentions_weights a x =
     (case scores a x of Inl e \<Rightarrow> Inl e | Inr s \<Rightarrow> Inr (softmax s))"

definition forward :: "selfAttention \<Rightarrow> real tensor \<Rightarrow> error + real tensor" where
  "forward a x =
     (case project_heads a x of Inl e \<Rightarrow> Inl e | Inr (Q, K, V) \<Rightarrow>
     (case attentions_weights a x of Inl e \<Rightarrow> Inl e | Inr w \<Rightarrow>
     (case matmul w V of Inl e \<Rightarrow> Inl e | Inr attn \<Rightarrow>
     (case transpose_t attn 0 1 of Inl e \<Rightarrow> Inl e | Inr attn_t \<Rightarrow>
     (case view attn_t [int (shape x ! 0), int (shape x ! 1), num_head a * d_head a] of
        Inl e \<Rightarrow> Inl e
      | Inr attn_v \<Rightarrow> Linear_forward (W_o a) attn_v)))))"

section \<open>Feed-forward sublayer, normalisation and the Transformer block\<close>

record mlp_params =
  P_up :: init
  P_down :: init

record MLP =
  mlp_d_embed :: int
  d_mlp :: int
  up_projection :: Linear
  down_projection :: Linear

definition MLP_init :: "mlp_params \<Rightarrow> config \<Rightarrow> error + MLP" where
  "MLP_init P cfg =
     (case config_get cfg ''d_embed'' of Inl e \<Rightarrow> Inl e | Inr de \<Rightarrow>
     (case nn_Linear (P_up P) de (4 * de) of Inl e \<Rightarrow> Inl e | Inr up \<Rightarrow>
     (case nn_Linear (P_down P) (4 * de) de of Inl e \<Rightarrow> Inl e | Inr down \<Rightarrow>
        Inr \<lparr>mlp_d_embed = de, d_mlp = 4 * de,
             up_projection = up, down_projection = down\<rparr>)))"

definition relu :: "real \<Rightarrow> real" where
  "relu v = max 0 v"

definition MLP_forward :: "MLP \<Rightarrow> real tensor \<Rightarrow> error + real tensor" where
  "MLP_forward m x =
     (case Linear_forward (up_projection m) x of Inl e \<Rightarrow> Inl e
      | Inr u \<Rightarrow> Linear_forward (down_projection m) (tmap relu u))"

text \<open>
  \<open>nn.RMSNorm(n)\<close> divides each row (last dimension, of size \<open>n\<close>) by the root of the
  mean of its squares plus \<open>eps\<close>, and multiplies by a learned weight (ones at
  construction). No \<open>eps\<close> is given, so torch takes the machine epsilon of the 32-bit
  floats, \<open>2\<^sup>-\<^sup>2\<^sup>3\<close>.
\<close>

record RMSNorm =
  normalized_shape :: nat
  rms_eps :: real
  rms_weight :: "nat \<Rightarrow> real"

definition nn_RMSNorm :: "(nat \<Rightarrow> real) \<Rightarrow> int \<Rightarrow> error + RMSNorm" where
  "nn_RMSNorm g n =
     (if n < 0 then Inl RuntimeError
      else Inr \<lparr>normalized_shape = nat n, rms_eps = 1 / 2 ^ 23, rms_weight = g\<rparr>)"

definition rms_norm_row :: "RMSNorm \<Rightarrow> (nat \<Rightarrow> real) \<Rightarrow> nat \<Rightarrow> real" where
  "rms_norm_row n v k =
     v k / sqrt ((\<Sum>i<normalized_shape n. (v i)\<^sup>2) / real (normalized_shape n) + rms_eps n)
       * rms_weight n k"

definition RMSNorm_forward :: "RMSNorm \<Rightarrow> real tensor \<Rightarrow> error + real tensor" where
  "RMSNorm_forward n x =
     (case rev (shape x) of
        [] \<Rightarrow> Inl RuntimeError
      | d # _ \<Rightarrow>
          if d \<noteq> normalized_shape n then Inl RuntimeError
          else Inr (mk (shape x)
                 (\<lambda>idx. rms_norm_row n (\<lambda>k. elem x (butlast idx @ [k])) (last idx))))"

record transformer_params =
  T_attention :: attention_params
  T_rmsnorm1 :: "nat \<Rightarrow> real"
  T_mlp :: mlp_params
  T_rmsnorm2 :: "nat \<Rightarrow> real"

record Transformer =
  attention :: selfAttention
  rmsnorm1 :: RMSNorm
  mlp :: MLP
  rmsnorm2 :: RMSNorm

definition Transformer_init :: "transformer_params \<Rightarrow> config \<Rightarrow> error + Transformer" where
  "Transformer_init P cfg =
     (case selfAttention_init (T_attention P) cfg of Inl e \<Rightarrow> Inl e | Inr att \<Rightarrow>
     (case config_get cfg ''d_embed'' of Inl e \<Rightarrow> Inl e | Inr de1 \<Rightarrow>
     (case nn_RMSNorm (T_rmsnorm1 P) de1 of Inl e \<Rightarrow> Inl e | Inr n1 \<Rightarrow>
     (case MLP_init (T_mlp P) cfg of Inl e \<Rightarrow> Inl e | Inr m \<Rightarrow>
     (case config_get cfg ''d_embed'' of Inl e \<Rightarrow> Inl e | Inr de2 \<Rightarrow>
     (case nn_RMSNorm (T_rmsnorm2 P) de2 of Inl e \<Rightarrow> Inl e | Inr n2 \<Rightarrow>
        Inr \<lparr>attention = att, rmsnorm1 = n1, mlp = m, rmsnorm2 = n2\<rparr>))))))"

definition Transformer_forward :: "Transformer \<Rightarrow> real tensor \<Rightarrow> error + real tensor" where
  "Transformer_forward t x =
     (case forward (attention t) x of Inl e \<Rightarrow> Inl e | Inr a \<Rightarrow>
     (case pointwise (+) x a of Inl e \<Rightarrow> Inl e | Inr x1 \<Rightarrow>
     (case RMSNorm_forward (rmsnorm1 t) x1 of Inl e \<Rightarrow> Inl e | Inr x2 \<Rightarrow>
     (case MLP_forward (mlp t) x2 of Inl e \<Rightarrow> Inl e | Inr m \<Rightarrow>
     (case pointwise (+) x2 m of Inl e \<Rightarrow> Inl e | Inr x3 \<Rightarrow>
        RMSNorm_forward (rmsnorm2 t) x3)))))"

section \<open>Positional encoding\<close>

text \<open>
  The constructor fills a table of shape \<open>[max_len, d_embed]\<close>: the even columns
  \<open>0::2\<close> take the sine, the odd columns \<open>1::2\<close> the cosine of
  \<open>position * div_term\<close>, where \<open>div_term\<close> has one entry for each even column index.
  \<open>torch.zeros\<close> refuses a negative size; \<open>math.log(10000.0) / d_embed\<close> raises for
  \<open>d_embed = 0\<close>; for an odd \<open>d_embed\<close> above 1 the cosine block has one column more
  than the slice it is assigned to, and the assignment is refused. The table is kept
  with a leading dimension of size 1.
\<close>

definition div_term :: "int \<Rightarrow> nat \<Rightarrow> real" where
  "div_term de i = exp (real (2 * i) * - (ln 10000 / real_of_int de))"

definition PositionalEncoding_init :: "config \<Rightarrow> error + real tensor" where
  "PositionalEncoding_init cfg =
     (case config_get cfg ''max_len'' of Inl e \<Rightarrow> Inl e | Inr ml \<Rightarrow>
     (case config_get cfg ''d_embed'' of Inl e \<Rightarrow> Inl e | Inr de \<Rightarrow>
        if ml < 0 \<or> de < 0 then Inl RuntimeError
        else if de = 0 then Inl ZeroDivisionError
        else if odd de \<and> de \<noteq> 1 then Inl RuntimeError
        else Inr (mk [1, nat ml, nat de]
               (\<lambda>idx. if even (idx ! 2)
                       then sin (real (idx ! 1) * div_term de (idx ! 2 div 2))
                       else cos (real (idx ! 1) * div_term de (idx ! 2 div 2))))))"

section \<open>Tokenizer and autoregressive sampling\<close>

record Tokenizer =
  vocab_size :: nat
  char2idx :: "char \<rightharpoonup> nat"
  idx2char :: "nat \<rightharpoonup> char"

fun encode :: "Tokenizer \<Rightarrow> string \<Rightarrow> error + nat list" where
  "encode tk [] = Inr []"
| "encode tk (ch # text) =
     (case char2idx tk ch of None \<Rightarrow> Inl KeyError
      | Some i \<Rightarrow> (case encode tk text of Inl e \<Rightarrow> Inl e | Inr r \<Rightarrow> Inr (i # r)))"

fun decode :: "Tokenizer \<Rightarrow> nat list \<Rightarrow> error + string" where
  "decode tk [] = Inr []"
| "decode tk (i # indices) =
     (case idx2char tk i of None \<Rightarrow> Inl KeyError
      | Some ch \<Rightarrow> (case decode tk indices of Inl e \<Rightarrow> Inl e | Inr r \<Rightarrow> Inr (ch # r)))"

text \<open>
  \<open>inference\<close> calls the global \<open>LLM\<close>, whatever model it is given: the forward pass of
  the global is a parameter \<open>LLM\<close> here, from the row of token ids generated so far
  (the tensor \<open>generated\<close>, of shape \<open>[1, T]\<close>) to the tensor of logits or an error
  (for an empty prompt torch builds a tensor of floats, which the embedding of the
  notebook's model refuses: the parameter is free to answer an error on the empty row).
  \<open>logits[0, -1, :]\<close> needs a first and a second dimension that are not empty; the
  notebook's model answers a tensor of rank 3, and a tensor of another rank ends in an
  error. The generator state fixed by the seed is the sequence \<open>rand\<close> of uniform draws
  in \<open>[0, 1)\<close>, one for each step; \<open>torch.multinomial\<close> is read as inversion of the
  cumulative distribution at the draw. \<open>torch.topk\<close> returns the \<open>k\<close> largest entries in
  descending order, the lower index first among equal entries; it refuses a \<open>k\<close> that
  is negative or larger than the number of entries. \<open>model.eval()\<close> clears the training
  flag of the model passed in; no layer of the notebook reads the flag. \<open>print\<close> is
  not modelled.
\<close>

record 'm Module =
  training :: bool
  layers :: 'm

definition last_logits :: "real tensor \<Rightarrow> error + real list" where
  "last_logits logits =
     (case shape logits of
        [B, T, V] \<Rightarrow>
          if B = 0 \<or> T = 0 then Inl IndexError
          else Inr (map (\<lambda>v. elem logits [0, T - 1, v]) [0..<V])
      | [] \<Rightarrow> Inl IndexError
      | [_] \<Rightarrow> Inl IndexError
      | [_, _] \<Rightarrow> Inl IndexError
      | _ \<Rightarrow> Inl RuntimeError)"

definition topk :: "real list \<Rightarrow> int \<Rightarrow> error + (real list \<times> nat list)" where
  "topk vs k =
     (if k < 0 \<or> int (length vs) < k then Inl RuntimeError
      else let topk_indices = take (nat k) (sort_key (\<lambda>i. - (vs ! i)) [0..<length vs])
           in Inr (map (\<lambda>i. vs ! i) topk_indices, topk_indices))"

definition softmax_list :: "real list \<Rightarrow> real list" where
  "softmax_list vs = map (\<lambda>v. exp v / (\<Sum>u\<leftarrow>vs. exp u)) vs"

fun pick :: "real list \<Rightarrow> real \<Rightarrow> nat" where
  "pick [] u = 0"
| "pick [p] u = 0"
| "pick (p # ps) u = (if u < p then 0 else Suc (pick ps (u - p)))"

definition multinomial :: "real list \<Rightarrow> real \<Rightarrow> error + nat" where
  "multinomial probs u = (if probs = [] then Inl RuntimeError else Inr (pick probs u))"

definition sample_next :: "real tensor \<Rightarrow> int \<Rightarrow> real \<Rightarrow> error + nat" where
  "sample_next logits top_k u =
     (case last_logits logits of Inl e \<Rightarrow> Inl e | Inr next_token_logits \<Rightarrow>
     (case topk next_token_logits top_k of Inl e \<Rightarrow> Inl e
      | Inr (topk_logits, topk_indices) \<Rightarrow>
     (case multinomial (softmax_list topk_logits) u of Inl e \<Rightarrow> Inl e
      | Inr i \<Rightarrow> Inr (topk_indices ! i))))"

fun generate ::
  "(nat list \<Rightarrow> error + real tensor) \<Rightarrow> (nat \<Rightarrow> real) \<Rightarrow> int \<Rightarrow> nat \<Rightarrow> nat \<Rightarrow> nat list
     \<Rightarrow> error + nat list" where
  "generate LLM rand top_k step 0 generated = Inr generated"
| "generate LLM rand top_k step (Suc n) generated =
     (case LLM generated of Inl e \<Rightarrow> Inl e | Inr logits \<Rightarrow>
     (case sample_next logits top_k (rand step) of Inl e \<Rightarrow> Inl e
      | Inr next_token \<Rightarrow> generate LLM rand top_k (Suc step) n (generated @ [next_token])))"

definition inference ::
  "(nat list \<Rightarrow> error + real tensor) \<Rightarrow> (nat \<Rightarrow> real) \<Rightarrow>
   'm Module \<Rightarrow> Tokenizer \<Rightarrow> string \<Rightarrow> int \<Rightarrow> int \<Rightarrow> 'm Module \<times> (error + string)" where
  "inference LLM rand model tokenizer prompt max_new_tokens top_k =
     (model\<lparr>training := False\<rparr>,
      case encode tokenizer prompt of Inl e \<Rightarrow> Inl e | Inr input_ids \<Rightarrow>
      (case generate LLM rand top_k 0 (nat max_new_tokens) input_ids of Inl e \<Rightarrow> Inl e
       | Inr generated \<Rightarrow> decode tokenizer generated))"

section \<open>Notions used in the statements\<close>

text \<open>
  \<open>linear_out lin x b l c\<close> is entry \<open>c\<close> of the projection of position \<open>l\<close> of batch
  \<open>b\<close>; \<open>qk_dot\<close> is the dot product of the query at position \<open>i\<close> with the key at
  position \<open>j\<close> inside head \<open>h\<close>. \<open>is_heads\<close> says that a tensor of shape
  \<open>[B, H, L, Dh]\<close> holds, for each head, its slice of the projected rows, and
  \<open>heads_ok\<close> that the sizes of an attention component fit together.
\<close>

definition linear_out :: "Linear \<Rightarrow> real tensor \<Rightarrow> nat \<Rightarrow> nat \<Rightarrow> nat \<Rightarrow> real" where
  "linear_out lin x b l c = (\<Sum>i<in_features lin. elem x [b, l, i] * weight lin c i) + bias lin c"

definition qk_dot :: "selfAttention \<Rightarrow> real tensor \<Rightarrow> nat \<Rightarrow> nat \<Rightarrow> nat \<Rightarrow> nat \<Rightarrow> nat \<Rightarrow> real" where
  "qk_dot a x Dh b h i j =
     (\<Sum>k<Dh. linear_out (W_q a) x b i (h * Dh + k) * linear_out (W_k a) x b j (h * Dh + k))"

definition is_heads ::
  "real tensor \<Rightarrow> nat \<Rightarrow> nat \<Rightarrow> nat \<Rightarrow> nat \<Rightarrow> (nat \<Rightarrow> nat \<Rightarrow> nat \<Rightarrow> real) \<Rightarrow> bool" where
  "is_heads T B H L Dh f \<longleftrightarrow>
     shape T = [B, H, L, Dh] \<and> length (strides T) = 4 \<and>
     (\<forall>b<B. \<forall>h<H. \<forall>l<L. \<forall>d<Dh. elem T [b, h, l, d] = f b l (h * Dh + d))"

definition heads_ok :: "selfAttention \<Rightarrow> nat \<Rightarrow> nat \<Rightarrow> nat \<Rightarrow> bool" where
  "heads_ok a D H Dh \<longleftrightarrow>
     num_head a = int H \<and> d_head a = int Dh \<and>
     in_features (W_q a) = D \<and> out_features (W_q a) = H * Dh \<and>
     in_features (W_k a) = D \<and> out_features (W_k a) = H * Dh \<and>
     in_features (W_v a) = D \<and> out_features (W_v a) = H * Dh"

text \<open>
  \<open>is_argmax vs m\<close>: the token \<open>m\<close> has a highest logit in \<open>vs\<close> (greedy decoding
  selects such a token at each step).
\<close>

definition is_argmax :: "real list \<Rightarrow> nat \<Rightarrow> bool" where
  "is_argmax vs m \<longleftrightarrow> m < length vs \<and> (\<forall>j<length vs. vs ! j \<le> vs ! m)"

section \<open>Concrete configurations and inputs\<close>

text \<open>
  A small attention component for the concrete evaluations below: embedding width 2 and
  per-head width 1, hence two heads. With \<open>P_uniform\<close> the query and key projections
  are zero (every position attends uniformly to the positions it may see) and the value
  and output projections are the identity; with \<open>P_identity\<close> all four projections are
  the identity.
\<close>

definition zero_init :: init where
  "zero_init = ((\<lambda>j i. 0), (\<lambda>j. 0))"

definition id_init :: init where
  "id_init = ((\<lambda>j i. if i = j then 1 else 0), (\<lambda>j. 0))"

definition P_uniform :: attention_params where
  "P_uniform = \<lparr>P_q = zero_init, P_k = zero_init, P_v = id_init, P_o = id_init\<rparr>"

definition P_identity :: attention_params where
  "P_identity = \<lparr>P_q = id_init, P_k = id_init, P_v = id_init, P_o = id_init\<rparr>"

definition cfg_2_1 :: config where
  "cfg_2_1 = [''d_embed'' \<mapsto> 2, ''d_head'' \<mapsto> 1]"

definition lin22 :: "init \<Rightarrow> Linear" where
  "lin22 P = \<lparr>in_features = 2, out_features = 2, weight = fst P, bias = snd P\<rparr>"

definition attn_uniform :: selfAttention where
  "attn_uniform = \<lparr>d_embed = 2, num_head = 2, d_head = 1,
     W_q = lin22 zero_init, W_k = lin22 zero_init, W_v = lin22 id_init, W_o = lin22 id_init\<rparr>"

definition attn_identity :: selfAttention where
  "attn_identity = \<lparr>d_embed = 2, num_head = 2, d_head = 1,
     W_q = lin22 id_init, W_k = lin22 id_init, W_v = lin22 id_init, W_o = lin22 id_init\<rparr>"

definition x_a :: "real tensor" where
  "x_a = mk [1, 2, 2] (\<lambda>idx. if idx = [0, 0, 0] then 1 else 0)"

definition x_b :: "real tensor" where
  "x_b = mk [1, 2, 2] (\<lambda>idx. if idx = [0, 0, 0] then 1 else if idx = [0, 1, 0] then 2 else 0)"

text \<open>
  Embedding width 4 with per-head width 2 (two heads), for any parameter values; and
  embedding width 3 with per-head width 2, which does not divide it.
\<close>

definition linear_of :: "nat \<Rightarrow> nat \<Rightarrow> init \<Rightarrow> Linear" where
  "linear_of n_in n_out P = \<lparr>in_features = n_in, out_features = n_out, weight = fst P, bias = snd P\<rparr>"

definition cfg_4_2 :: config where
  "cfg_4_2 = [''d_embed'' \<mapsto> 4, ''d_head'' \<mapsto> 2]"

definition attn_4_2 :: "attention_params \<Rightarrow> selfAttention" where
  "attn_4_2 P = \<lparr>d_embed = 4, num_head = 2, d_head = 2,
     W_q = linear_of 4 4 (P_q P), W_k = linear_of 4 4 (P_k P), W_v = linear_of 4 4 (P_v P), W_o = linear_of 4 4 (P_o P)\<rparr>"





text \<open>
  The options of the notebook's configuration that the layers read, with the configured
  feed-forward width 256, and the same configuration with another feed-forward width.
\<close>

definition cfg_notebook :: config where
  "cfg_notebook = [''d_embed'' \<mapsto> 64, ''d_head'' \<mapsto> 16, ''d_mlp'' \<mapsto> 256, ''num_head'' \<mapsto> 4,
     ''num_layers'' \<mapsto> 1, ''max_len'' \<mapsto> 2048]"

definition cfg_narrow_mlp :: config where
  "cfg_narrow_mlp = cfg_notebook(''d_mlp'' \<mapsto> 100)"

definition P_mlp_zero :: mlp_params where
  "P_mlp_zero = \<lparr>P_up = zero_init, P_down = zero_init\<rparr>"

definition cfg_pe :: config where
  "cfg_pe = [''max_len'' \<mapsto> 3, ''d_embed'' \<mapsto> 4]"

text \<open>
  A model over three tokens whose logits always favour token 1, a tokenizer for the
  characters a, b and c, two sequences of draws, and a module in training mode.
\<close>

definition LLM_demo :: "nat list \<Rightarrow> error + real tensor" where
  "LLM_demo ids = Inr (mk [1, length ids, 3] (\<lambda>idx. if idx ! 2 = 1 then 1 else 0))"

definition tk_demo :: Tokenizer where
  "tk_demo = \<lparr>vocab_size = 3,
     char2idx = [CHR ''a'' \<mapsto> 0, CHR ''b'' \<mapsto> 1, CHR ''c'' \<mapsto> 2],
     idx2char = [0 \<mapsto> CHR ''a'', 1 \<mapsto> CHR ''b'', 2 \<mapsto> CHR ''c'']\<rparr>"

definition rand_lo :: "nat \<Rightarrow> real" where
  "rand_lo n = 0"

definition rand_hi :: "nat \<Rightarrow> real" where
  "rand_hi n = 9 / 10"

definition m_demo :: "unit Module" where
  "m_demo = \<lparr>training = True, layers = ()\<rparr>"

text \<open>
  A Transformer block over the small attention component: normalisation weights 1 (their
  value at construction) and a feed-forward sublayer with zero parameters.
\<close>

definition P_block :: transformer_params where
  "P_block = \<lparr>T_attention = P_uniform, T_rmsnorm1 = (\<lambda>k. 1), T_mlp = P_mlp_zero,
     T_rmsnorm2 = (\<lambda>k. 1)\<rparr>"

definition block_demo :: Transformer where
  "block_demo = \<lparr>attention = attn_uniform,
     rmsnorm1 = \<lparr>normalized_shape = 2, rms_eps = 1 / 2 ^ 23, rms_weight = (\<lambda>k. 1)\<rparr>,
     mlp = \<lparr>mlp_d_embed = 2, d_mlp = 8, up_projection = linear_of 2 8 zero_init,
             down_projection = linear_of 8 2 zero_init\<rparr>,
     rmsnorm2 = \<lparr>normalized_shape = 2, rms_eps = 1 / 2 ^ 23, rms_weight = (\<lambda>k. 1)\<rparr>\<rparr>"

section \<open>Indexing, views and the stages of the attention\<close>

lemma offset_lt:
  "in_range sh idx \<Longrightarrow> offset (contiguous_strides sh) idx < numel sh"
proof (induction sh idx rule: in_range.induct)
  case 1
  then show ?case by (simp add: numel_def)
next
  case (2 d ds i "is")
  then have lt: "offset (contiguous_strides ds) is < numel ds" and i: "i < d" by simp_all
  have "i * numel ds + offset (contiguous_strides ds) is < Suc i * numel ds"
    using lt by simp
  also have "\<dots> \<le> d * numel ds"
    using i by (intro mult_le_mono1) simp
  finally show ?case by (simp add: numel_def)
qed simp_all

lemma unravel_offset:
  "in_range sh idx \<Longrightarrow> unravel sh (offset (contiguous_strides sh) idx) = idx"
proof (induction sh idx rule: in_range.induct)
  case (2 d ds i "is")
  then have r: "in_range ds is" by simp
  from offset_lt [OF r] show ?case using 2 by simp
qed simp_all

lemma elem_mk: "in_range sh idx \<Longrightarrow> elem (mk sh f) idx = f idx"
  by (simp add: elem_def mk_def unravel_offset)

lemma shape_mk [simp]: "shape (mk sh f) = sh"
  by (simp add: mk_def)

lemma strides_mk [simp]: "strides (mk sh f) = contiguous_strides sh"
  by (simp add: mk_def)

lemma fill_chunk_exact:
  "vn * prod_list ds = tn \<Longrightarrow> 0 < tn \<Longrightarrow>
   fill_chunk base tn vn ds =
     (map (\<lambda>k. vn * prod_list (take k ds) * base) [0..<length ds], tn, [])"
proof (induction ds arbitrary: vn)
  case Nil
  then show ?case by simp
next
  case (Cons d ds)
  have pos: "0 < vn" "0 < d * prod_list ds"
    using Cons.prems by (auto intro: Nat.gr0I)
  have go: "vn < tn \<or> d = 1"
  proof (cases "vn < tn")
    case False
    then have "vn * (d * prod_list ds) \<le> vn * 1" using Cons.prems by simp
    then have "d * prod_list ds \<le> 1" using pos(1) by simp
    then have "d * prod_list ds = 1" using pos(2) by linarith
    then show ?thesis by simp
  qed simp
  have ih: "fill_chunk base tn (vn * d) ds =
     (map (\<lambda>k. vn * d * prod_list (take k ds) * base) [0..<length ds], tn, [])"
    using Cons.prems by (intro Cons.IH) (simp_all add: mult.assoc)
  show ?case
    using go by (simp add: ih map_upt_Suc mult.assoc del: upt_Suc)
qed

lemma view_split:
  assumes sh: "shape T = [B, L, H * Dh]" and st: "strides T = contiguous_strides [B, L, H * Dh]"
  shows "\<exists>st'. view T [int B, int L, int H, int Dh]
            = Inr \<lparr>shape = [B, L, H, Dh], strides = st', storage = storage T\<rparr>
          \<and> length st' = 4
          \<and> (B * L * H * Dh \<noteq> 0 \<longrightarrow> st' = [L * (H * Dh), H * Dh, Dh, 1])"
proof -
  have inf: "infer_size [int B, int L, int H, int Dh] (numel [B, L, H * Dh]) = Inr [B, L, H, Dh]"
    by (simp add: infer_size_def numel_def)
  have cs: "\<exists>st'. computeStride [B, L, H * Dh] (contiguous_strides [B, L, H * Dh]) [B, L, H, Dh]
      = Some st' \<and> length st' = 4 \<and> (B * L * H * Dh \<noteq> 0 \<longrightarrow> st' = [L * (H * Dh), H * Dh, Dh, 1])"
  proof (cases "B * L * H * Dh = 0")
    case True
    then show ?thesis
      by (simp add: computeStride_def numel_def)
  next
    case False
    have fc: "fill_chunk (Suc 0) tn (Suc 0) [Dh, H, L, B]
        = ([1, Dh, Dh * H, Dh * H * L], tn, [])" if "tn = Dh * H * L * B" for tn
      using fill_chunk_exact [of "Suc 0" "[Dh, H, L, B]" tn "Suc 0"] False that
      by (simp add: upt_rec)
    have z: "rev (zip [B, L, H * Dh] (contiguous_strides [B, L, H * Dh]))
        = [(H * Dh, 1), (L, H * Dh), (B, L * (H * Dh))]"
      and lst: "last (contiguous_strides [B, L, H * Dh]) = 1"
      and ne: "numel [B, L, H * Dh] \<noteq> 0"
      using False by (simp_all add: numel_def)
    have ch: "chunks [(H * Dh, 1), (L, H * Dh), (B, L * (H * Dh))] 1 1 (rev [B, L, H, Dh])
       = Some [1, Dh, Dh * H, Dh * H * L]"
      by (simp add: Let_def fc mult_ac del: fill_chunk.simps)
    show ?thesis
      unfolding computeStride_def z lst ch using ne by (simp add: mult_ac)
  qed
  then obtain st' where
    "computeStride [B, L, H * Dh] (contiguous_strides [B, L, H * Dh]) [B, L, H, Dh] = Some st'"
    "length st' = 4" "B * L * H * Dh \<noteq> 0 \<longrightarrow> st' = [L * (H * Dh), H * Dh, Dh, 1]"
    by blast
  then show ?thesis
    unfolding view_def sh st inf by simp
qed


lemma head_index_lt: "h < H \<Longrightarrow> d < Dh \<Longrightarrow> h * Dh + d < H * (Dh::nat)"
proof -
  assume h: "h < H" and d: "d < Dh"
  have "h * Dh + d < Suc h * Dh" using d by simp
  also have "\<dots> \<le> H * Dh" using h by (intro mult_le_mono1) simp
  finally show ?thesis .
qed

lemma Linear_forward_rank3:
  "shape x = [B, L, D] \<Longrightarrow> in_features lin = D \<Longrightarrow>
   Linear_forward lin x =
     Inr (mk [B, L, out_features lin]
       (\<lambda>idx. (\<Sum>i<D. elem x (butlast idx @ [i]) * weight lin (last idx) i) + bias lin (last idx)))"
  by (simp add: Linear_forward_def)

lemma split_heads_mk:
  assumes nh: "num_head a = int H" and dh: "d_head a = int Dh"
  shows "\<exists>T'. split_heads a B L (mk [B, L, H * Dh] f) = Inr T'
           \<and> shape T' = [B, H, L, Dh] \<and> length (strides T') = 4
           \<and> (\<forall>b<B. \<forall>h<H. \<forall>l<L. \<forall>d<Dh. elem T' [b, h, l, d] = f [b, l, h * Dh + d])"
proof -
  let ?T = "mk [B, L, H * Dh] f"
  obtain st' where v: "view ?T [int B, int L, int H, int Dh]
            = Inr \<lparr>shape = [B, L, H, Dh], strides = st', storage = storage ?T\<rparr>"
     and len: "length st' = 4"
     and nz: "B * L * H * Dh \<noteq> 0 \<longrightarrow> st' = [L * (H * Dh), H * Dh, Dh, 1]"
    using view_split [of ?T B L H Dh] by auto
  let ?T' = "\<lparr>shape = [B, H, L, Dh], strides = st'[1 := st' ! 2, 2 := st' ! 1], storage = storage ?T\<rparr>"
  have sp: "split_heads a B L ?T = Inr ?T'"
    by (simp add: split_heads_def nh dh v transpose_t_def wrap_dim_def len)
  have el: "elem ?T' [b, h, l, d] = f [b, l, h * Dh + d]"
    if "b < B" "h < H" "l < L" "d < Dh" for b h l d
  proof -
    have "B * L * H * Dh \<noteq> 0" using that by auto
    then have st': "st' = [L * (H * Dh), H * Dh, Dh, 1]" using nz by simp
    have c: "h * Dh + d < H * Dh" using that by (simp add: head_index_lt)
    have "f [b, l, h * Dh + d] = elem ?T [b, l, h * Dh + d]"
      using that c by (simp add: elem_mk)
    also have "\<dots> = elem ?T' [b, h, l, d]"
      by (simp add: elem_def st' numel_def algebra_simps)
    finally show ?thesis by simp
  qed
  show ?thesis using sp el len by (intro exI [of _ ?T']) simp
qed


lemma split_Linear:
  assumes nh: "num_head a = int H" and dh: "d_head a = int Dh"
    and x: "shape x = [B, L, D]" and i: "in_features lin = D" and o: "out_features lin = H * Dh"
  shows "\<exists>T0 T. Linear_forward lin x = Inr T0 \<and> split_heads a B L T0 = Inr T
           \<and> is_heads T B H L Dh (linear_out lin x)"
proof -
  let ?f = "\<lambda>idx. (\<Sum>i<D. elem x (butlast idx @ [i]) * weight lin (last idx) i) + bias lin (last idx)"
  have l: "Linear_forward lin x = Inr (mk [B, L, H * Dh] ?f)"
    using Linear_forward_rank3 [OF x i] o by simp
  obtain T where "split_heads a B L (mk [B, L, H * Dh] ?f) = Inr T"
    "shape T = [B, H, L, Dh]" "length (strides T) = 4"
    "\<forall>b<B. \<forall>h<H. \<forall>l<L. \<forall>d<Dh. elem T [b, h, l, d] = ?f [b, l, h * Dh + d]"
    using split_heads_mk [OF nh dh, of B L ?f] by blast
  then show ?thesis using l
    by (auto simp add: is_heads_def linear_out_def i)
qed

lemma project_heads_ok:
  assumes ok: "heads_ok a D H Dh" and x: "shape x = [B, L, D]"
  shows "\<exists>Q K V. project_heads a x = Inr (Q, K, V)
           \<and> is_heads Q B H L Dh (linear_out (W_q a) x)
           \<and> is_heads K B H L Dh (linear_out (W_k a) x)
           \<and> is_heads V B H L Dh (linear_out (W_v a) x)"
proof -
  from ok have nh: "num_head a = int H" and dh: "d_head a = int Dh"
    and q: "in_features (W_q a) = D" "out_features (W_q a) = H * Dh"
    and k: "in_features (W_k a) = D" "out_features (W_k a) = H * Dh"
    and v: "in_features (W_v a) = D" "out_features (W_v a) = H * Dh"
    by (simp_all add: heads_ok_def)
  obtain Q0 Q where Q: "Linear_forward (W_q a) x = Inr Q0" "split_heads a B L Q0 = Inr Q"
    "is_heads Q B H L Dh (linear_out (W_q a) x)"
    using split_Linear [OF nh dh x q] by blast
  obtain K0 K where K: "Linear_forward (W_k a) x = Inr K0" "split_heads a B L K0 = Inr K"
    "is_heads K B H L Dh (linear_out (W_k a) x)"
    using split_Linear [OF nh dh x k] by blast
  obtain V0 V where V: "Linear_forward (W_v a) x = Inr V0" "split_heads a B L V0 = Inr V"
    "is_heads V B H L Dh (linear_out (W_v a) x)"
    using split_Linear [OF nh dh x v] by blast
  show ?thesis using Q K V
    by (simp add: project_heads_def x)
qed


lemma length4E:
  assumes "length (st :: nat list) = 4"
  obtains s0 s1 s2 s3 where "st = [s0, s1, s2, s3]"
proof -
  from assms obtain s0 r0 where a: "st = s0 # r0" "length r0 = 3" by (cases st) auto
  then obtain s1 r1 where b: "r0 = s1 # r1" "length r1 = 2" by (cases r0) auto
  then obtain s2 r2 where c: "r1 = s2 # r2" "length r2 = 1" by (cases r1) auto
  then obtain s3 where d: "r2 = [s3]" by (cases r2) auto
  show ?thesis using a b c d that by simp
qed

lemma transpose_last2:
  assumes sh: "shape K = [B, H, L, Dh]" and len: "length (strides K) = 4"
  shows "\<exists>KT. transpose_t K (- 2) (- 1) = Inr KT \<and> shape KT = [B, H, Dh, L]
           \<and> (\<forall>b h k j. elem KT [b, h, k, j] = elem K [b, h, j, k])"
proof -
  obtain s0 s1 s2 s3 where st: "strides K = [s0, s1, s2, s3]"
    using len by (rule length4E)
  show ?thesis
    by (simp add: transpose_t_def wrap_dim_def sh st elem_def add_ac)
qed

lemma shape_mask: "shape (unsqueeze0 (causal_mask L)) = [Suc 0, L, L]"
  by (simp add: unsqueeze0_def causal_mask_def)

lemma broadcast_mask: "broadcast_shapes [B, H, L, L] [Suc 0, L, L] = Some [B, H, L, L]"
  by (simp add: broadcast_shapes_def)

lemma elem_mask:
  "i < L \<Longrightarrow> j < L \<Longrightarrow>
   elem (unsqueeze0 (causal_mask L)) [0, i, j] = (if i < j then NegInf else Fin 0)"
proof -
  assume ij: "i < L" "j < L"
  have "elem (unsqueeze0 (causal_mask L)) [0, i, j] = elem (causal_mask L) [i, j]"
    by (simp add: elem_def unsqueeze0_def)
  also have "\<dots> = (if i < j then NegInf else Fin 0)"
    using ij by (auto simp add: causal_mask_def elem_mk)
  finally show ?thesis .
qed

lemma scores_ok:
  assumes ok: "heads_ok a D H Dh" and x: "shape x = [B, L, D]"
  shows "\<exists>s. scores a x = Inr s \<and> shape s = [B, H, L, L]
          \<and> (\<forall>b<B. \<forall>h<H. \<forall>i<L. \<forall>j<L.
                elem s [b, h, i, j] =
                  (if i < j then NegInf else Fin (qk_dot a x Dh b h i j / sqrt (real D))))"
proof -
  obtain Q K V where p: "project_heads a x = Inr (Q, K, V)"
    and Q: "is_heads Q B H L Dh (linear_out (W_q a) x)"
    and K: "is_heads K B H L Dh (linear_out (W_k a) x)"
    using project_heads_ok [OF ok x] by blast
  obtain KT where KT: "transpose_t K (- 2) (- 1) = Inr KT" "shape KT = [B, H, Dh, L]"
    "\<And>b h k j. elem KT [b, h, k, j] = elem K [b, h, j, k]"
    using transpose_last2 [of K B H L Dh] K by (auto simp add: is_heads_def)
  let ?QKT = "mk [B, H, L, L]
      (\<lambda>idx. \<Sum>k<Dh. elem Q [idx ! 0, idx ! 1, idx ! 2, k] * elem KT [idx ! 0, idx ! 1, k, idx ! 3])"
  have mm: "matmul Q KT = Inr ?QKT"
    using Q KT(2) by (simp add: matmul_def is_heads_def)
  let ?m = "unsqueeze0 (causal_mask L)"
  let ?sm = "mk [B, H, L, L]
      (\<lambda>idx. xadd (Fin (elem ?QKT (bidx [B, H, L, L] idx))) (elem ?m (bidx (shape ?m) idx)))"
  have pw: "pointwise (\<lambda>q m. xadd (Fin q) m) ?QKT ?m = Inr ?sm"
    by (simp add: pointwise_def shape_mask broadcast_mask)
  let ?s = "tmap (\<lambda>v. xdiv v (sqrt (real D))) ?sm"
  have x12: "shape x ! 1 = L" "shape x ! 2 = D"
    by (simp_all add: x)
  have sc: "scores a x = Inr ?s"
    by (simp only: scores_def p KT(1) mm x12 pw sum.case prod.case)
  have el: "elem ?s [b, h, i, j] = (if i < j then NegInf else Fin (qk_dot a x Dh b h i j / sqrt (real D)))"
    if r: "b < B" "h < H" "i < L" "j < L" for b h i j
  proof -
    have b1: "bidx [B, H, L, L] [b, h, i, j] = [b, h, i, j]"
      using r by (auto simp add: bidx_def)
    have b2: "bidx (shape ?m) [b, h, i, j] = [0, i, j]"
      using r by (auto simp add: bidx_def shape_mask)
    have qkt: "elem ?QKT [b, h, i, j] = qk_dot a x Dh b h i j"
      using r Q K by (simp add: elem_mk KT(3) is_heads_def qk_dot_def)
    have "elem ?sm [b, h, i, j] =
        xadd (Fin (elem ?QKT (bidx [B, H, L, L] [b, h, i, j]))) (elem ?m (bidx (shape ?m) [b, h, i, j]))"
      using r by (simp add: elem_mk)
    also have "\<dots> = xadd (Fin (elem ?QKT [b, h, i, j])) (elem ?m [0, i, j])"
      by (simp only: b1 b2)
    also have "\<dots> = xadd (Fin (qk_dot a x Dh b h i j)) (if i < j then NegInf else Fin 0)"
      by (simp only: qkt elem_mask [OF r(3,4)])
    finally have s0: "elem ?sm [b, h, i, j] =
        xadd (Fin (qk_dot a x Dh b h i j)) (if i < j then NegInf else Fin 0)" .
    have "elem ?s [b, h, i, j] = xdiv (elem ?sm [b, h, i, j]) (sqrt (real D))"
      using r by (simp add: tmap_def elem_mk)
    also have "\<dots> = (if i < j then NegInf else Fin (qk_dot a x Dh b h i j / sqrt (real D)))"
      by (simp only: s0) simp
    finally show ?thesis .
  qed
  show ?thesis
    using sc el by (intro exI [of _ ?s]) (simp add: tmap_def)
qed

lemma selfAttention_init_ok:
  assumes de: "cfg ''d_embed'' = Some de" and dh0: "cfg ''d_head'' = Some dh0"
    and pos: "0 < dh0" and le: "dh0 \<le> de"
  shows "\<exists>a. selfAttention_init P cfg = Inr a
          \<and> d_embed a = de \<and> num_head a = de div dh0 \<and> d_head a = de div (de div dh0)
          \<and> 0 < num_head a \<and> 0 < d_head a
          \<and> heads_ok a (nat de) (nat (num_head a)) (nat (d_head a))
          \<and> in_features (W_o a) = nat de \<and> out_features (W_o a) = nat de"
proof -
  let ?nh = "de div dh0"
  let ?dh = "de div ?nh"
  have nh: "0 < ?nh" using pos le by (simp add: pos_imp_zdiv_pos_iff)
  have "?nh \<le> de" using pos le int_div_le_self [of de dh0] by simp
  then have dh: "0 < ?dh" using nh by (simp add: pos_imp_zdiv_pos_iff)
  have prod: "nat (?nh * ?dh) = nat ?nh * nat ?dh"
    using nh by (simp add: nat_mult_distrib)
  have nn: "\<not> ?nh * ?dh < 0" using nh dh by (simp add: mult_less_0_iff)
  show ?thesis
    using nh dh pos le nn
    by (simp add: selfAttention_init_def config_get_def de dh0 floordiv_def nn_Linear_def
        heads_ok_def prod)
qed


lemma weights_ok:
  assumes ok: "heads_ok a D H Dh" and x: "shape x = [B, L, D]"
  shows "\<exists>s w. scores a x = Inr s \<and> attentions_weights a x = Inr w \<and> shape w = [B, H, L, L]
          \<and> (\<forall>b<B. \<forall>h<H. \<forall>i<L. \<forall>j<L.
                elem w [b, h, i, j] =
                  xexp (elem s [b, h, i, j]) / (\<Sum>j'<L. xexp (elem s [b, h, i, j'])))"
proof -
  obtain s where s: "scores a x = Inr s" "shape s = [B, H, L, L]"
    using scores_ok [OF ok x] by blast
  have "elem (softmax s) [b, h, i, j] =
      xexp (elem s [b, h, i, j]) / (\<Sum>j'<L. xexp (elem s [b, h, i, j']))"
    if "b < B" "h < H" "i < L" "j < L" for b h i j
    using that by (simp add: softmax_def s(2) elem_mk)
  then show ?thesis
    using s by (simp add: attentions_weights_def softmax_def)
qed


lemma init_uniform: "selfAttention_init P_uniform cfg_2_1 = Inr attn_uniform"
  by (simp add: selfAttention_init_def P_uniform_def cfg_2_1_def config_get_def floordiv_def
      nn_Linear_def attn_uniform_def lin22_def)

lemma init_identity: "selfAttention_init P_identity cfg_2_1 = Inr attn_identity"
  by (simp add: selfAttention_init_def P_identity_def cfg_2_1_def config_get_def floordiv_def
      nn_Linear_def attn_identity_def lin22_def)

lemma elem_x_a: "elem x_a [0, l, c] = (if l = 0 \<and> c = 0 then 1 else 0)" if "l < 2" "c < 2"
  using that by (simp add: x_a_def elem_mk)

lemma elem_x_b:
  "elem x_b [0, l, c] = (if l = 0 \<and> c = 0 then 1 else if l = 1 \<and> c = 0 then 2 else 0)"
  if "l < 2" "c < 2"
  using that by (simp add: x_b_def elem_mk)

section \<open>The attention weights\<close>



lemma sum_lessThan_2: "(\<Sum>i<2. f i) = f 0 + f (1::nat)"
  by (simp add: numeral_2_eq_2)

lemma linear_out_id:
  "c < 2 \<Longrightarrow> l < 2 \<Longrightarrow> shape x = [1, 2, 2] \<Longrightarrow> linear_out (lin22 id_init) x 0 l c = elem x [0, l, c]"
proof -
  assume "c < 2"
  then have "c = 0 \<or> c = 1" by auto
  then show ?thesis
    by (auto simp add: linear_out_def lin22_def id_init_def sum_lessThan_2)
qed

lemma qk_identity: "qk_dot attn_identity x_a (Suc 0) 0 0 0 0 = 1"
proof -
  have "linear_out (lin22 id_init) x_a 0 0 0 = 1"
    by (subst linear_out_id) (simp_all add: x_a_def elem_mk)
  then show ?thesis
    by (simp add: qk_dot_def attn_identity_def)
qed


section \<open>The scaling of the scores\<close>

text \<open>
  Claim C5. For a configuration with \<open>1 \<le> d_head \<le> d_embed\<close> and every input of shape
  \<open>[B, L, d_embed]\<close>, the scores handed to the softmax are, for every batch entry, head,
  row \<open>i\<close> and column \<open>j\<close>: \<open>-inf\<close> above the diagonal, and otherwise the dot product
  of the query at \<open>i\<close> with the key at \<open>j\<close> divided by the square root of the full
  embedding width \<open>d_embed\<close>. The per-head width does not occur in the divisor.
\<close>

theorem scores_divided_by_sqrt_embedding_width:
  assumes de: "cfg ''d_embed'' = Some de" and dh: "cfg ''d_head'' = Some dh"
    and pos: "0 < dh" and le: "dh \<le> de"
    and a: "selfAttention_init P cfg = Inr a"
    and x: "shape x = [B, L, nat de]"
  shows "\<exists>s. scores a x = Inr s \<and> attentions_weights a x = Inr (softmax s)
          \<and> shape s = [B, nat (num_head a), L, L]
          \<and> (\<forall>b<B. \<forall>h<nat (num_head a). \<forall>i<L. \<forall>j<L.
                elem s [b, h, i, j] =
                  (if i < j then NegInf
                   else Fin (qk_dot a x (nat (d_head a)) b h i j / sqrt (real_of_int de))))"
proof -
  have ok: "heads_ok a (nat de) (nat (num_head a)) (nat (d_head a))"
    using selfAttention_init_ok [OF de dh pos le, of P] a by auto
  have "0 \<le> de" using pos le by simp
  then have r: "real (nat de) = real_of_int de" by simp
  obtain s where s: "scores a x = Inr s" "shape s = [B, nat (num_head a), L, L]"
    "\<forall>b<B. \<forall>h<nat (num_head a). \<forall>i<L. \<forall>j<L.
                elem s [b, h, i, j] =
                  (if i < j then NegInf
                   else Fin (qk_dot a x (nat (d_head a)) b h i j / sqrt (real (nat de))))"
    using scores_ok [OF ok x] by blast
  have w: "attentions_weights a x = Inr (softmax s)"
    by (simp add: attentions_weights_def s(1))
  show ?thesis
    using s w unfolding r by blast
qed



theorem scores_divided_by_sqrt_embedding_width_witness:
  "cfg_2_1 ''d_embed'' = Some 2 \<and> cfg_2_1 ''d_head'' = Some 1
   \<and> selfAttention_init P_identity cfg_2_1 = Inr attn_identity \<and> shape x_a = [1, 2, nat 2]
   \<and> (case scores attn_identity x_a of
         Inr s \<Rightarrow> elem s [0, 0, 0, 0] = Fin (1 / sqrt 2) \<and> elem s [0, 0, 0, 1] = NegInf
                 \<and> elem s [0, 0, 0, 0] \<noteq> Fin (1 / sqrt (real_of_int (d_head attn_identity)))
       | Inl e \<Rightarrow> False)"
proof -
  have h: "cfg_2_1 ''d_embed'' = Some 2" "cfg_2_1 ''d_head'' = Some 1" "(0::int) < 1" "(1::int) \<le> 2"
    "shape x_a = [1, 2, nat 2]"
    by (simp_all add: cfg_2_1_def x_a_def)
  have nh: "nat (num_head attn_identity) = 2" "nat (d_head attn_identity) = 1"
    "d_head attn_identity = 1"
    by (simp_all add: attn_identity_def)
  obtain s where s: "scores attn_identity x_a = Inr s"
    and el: "\<forall>b<1. \<forall>h<nat (num_head attn_identity). \<forall>i<2. \<forall>j<2.
                elem s [b, h, i, j] =
                  (if i < j then NegInf
                   else Fin (qk_dot attn_identity x_a (nat (d_head attn_identity)) b h i j
                             / sqrt (real_of_int 2)))"
    using scores_divided_by_sqrt_embedding_width [OF h(1-4) init_identity h(5)]
    by blast
  have e00: "elem s [0, 0, 0, 0] = Fin (1 / sqrt 2)"
    using el [rule_format, of 0 0 0 0] by (simp add: nh qk_identity)
  have e01: "elem s [0, 0, 0, 1] = NegInf"
    using el [rule_format, of 0 0 0 1] by (simp add: nh)
  have ne: "(1::real) / sqrt 2 \<noteq> 1 / sqrt 1"
    by simp
  show ?thesis
    using h init_identity s e00 e01 ne by (simp add: nh)
qed

lemma forward_tail:
  assumes p: "project_heads a x = Inr (Q, K, V)" and w: "attentions_weights a x = Inr w"
    and shw: "shape w = [B, H, L, L]" and shV: "shape V = [B, H, L, Dh]"
    and x: "shape x = [B, L, D]"
  shows "forward a x =
     (case view \<lparr>shape = [H, B, L, Dh], strides = [L * Dh, H * (L * Dh), Dh, 1],
                 storage = storage (mk [B, H, L, Dh]
                   (\<lambda>idx. \<Sum>k<L. elem w [idx ! 0, idx ! 1, idx ! 2, k] *
                                   elem V [idx ! 0, idx ! 1, k, idx ! 3]))\<rparr>
             [int B, int L, num_head a * d_head a] of
        Inl e \<Rightarrow> Inl e
      | Inr attn_v \<Rightarrow> Linear_forward (W_o a) attn_v)"
  by (simp add: forward_def p w matmul_def shw shV transpose_t_def wrap_dim_def x numel_def)


section \<open>The reassembly of the heads\<close>

lemma init_4_2: "selfAttention_init P cfg_4_2 = Inr (attn_4_2 P)"
  by (simp add: selfAttention_init_def cfg_4_2_def config_get_def floordiv_def
      nn_Linear_def attn_4_2_def linear_of_def)

text \<open>
  Claim C1, at a batch of two. The weighted sum \<open>attn\<close> has shape
  \<open>[B, NUM_HEAD, SEQ_LEN, D_HEAD]\<close>; \<open>attn.transpose(0, 1)\<close> exchanges the batch axis
  and the head axis, not the head axis and the sequence axis. With embedding width 4,
  two heads and an input of shape \<open>[2, 3, 4]\<close> the attention weights are computed, and
  the view to \<open>[2, 3, 4]\<close> that follows the transposition is refused: \<open>forward\<close> raises
  and returns no tensor, whatever the parameters and the values of the input.
\<close>

theorem forward_batch_of_two_refused:
  "selfAttention_init P cfg_4_2 = Inr (attn_4_2 P)
   \<and> \<not> isl (attentions_weights (attn_4_2 P) (mk [2, 3, 4] f))
   \<and> forward (attn_4_2 P) (mk [2, 3, 4] f) = Inl RuntimeError"
proof -
  let ?x = "mk [2, 3, 4] f" and ?a = "attn_4_2 P"
  have ok: "heads_ok ?a 4 2 2"
    by (simp add: heads_ok_def attn_4_2_def linear_of_def)
  have nh: "num_head ?a = 2" "d_head ?a = 2"
    by (simp_all add: attn_4_2_def)
  have x: "shape ?x = [2, 3, 4]" by simp
  obtain Q K V where p: "project_heads ?a ?x = Inr (Q, K, V)"
    and V: "is_heads V 2 2 3 2 (linear_out (W_v ?a) ?x)"
    using project_heads_ok [OF ok x] by blast
  obtain w where w: "attentions_weights ?a ?x = Inr w" and shw: "shape w = [2, 2, 3, 3]"
    using weights_ok [OF ok x] by blast
  have shV: "shape V = [2, 2, 3, 2]" using V by (simp add: is_heads_def)
  have "forward ?a ?x = Inl RuntimeError"
    unfolding forward_tail [OF p w shw shV x] nh
    by (simp add: view_def infer_size_def numel_def computeStride_def)
  then show ?thesis
    by (simp add: init_4_2 w)
qed

lemma qk_uniform: "qk_dot attn_uniform x Dh b h i j = 0"
  by (simp add: qk_dot_def linear_out_def attn_uniform_def lin22_def zero_init_def)

lemma forward_uniform:
  assumes x: "shape x = [1, 2, 2]"
  shows "\<exists>y. forward attn_uniform x = Inr y \<and> shape y = [1, 2, 2]
           \<and> elem y [0, 0, 1] = (elem x [0, 0, 0] + elem x [0, 1, 0]) / 2"
proof -
  have ok: "heads_ok attn_uniform 2 2 1"
    by (simp add: heads_ok_def attn_uniform_def lin22_def)
  obtain Q K V where p: "project_heads attn_uniform x = Inr (Q, K, V)"
    and V: "is_heads V 1 2 2 1 (linear_out (W_v attn_uniform) x)"
    using project_heads_ok [OF ok x] by blast
  obtain s w where s: "scores attn_uniform x = Inr s"
    and w: "attentions_weights attn_uniform x = Inr w" and shw: "shape w = [1, 2, 2, 2]"
    and el: "\<forall>b<1. \<forall>h<2. \<forall>i<2. \<forall>j<2.
                elem w [b, h, i, j] =
                  xexp (elem s [b, h, i, j]) / (\<Sum>j'<2. xexp (elem s [b, h, i, j']))"
    using weights_ok [OF ok x] by blast
  have sc: "\<forall>b<1. \<forall>h<2. \<forall>i<2. \<forall>j<2.
      elem s [b, h, i, j] =
        (if i < j then NegInf else Fin (qk_dot attn_uniform x 1 b h i j / sqrt (real 2)))"
    using scores_ok [OF ok x] s by auto
  have s10: "elem s [0, 0, Suc 0, 0] = Fin 0" and s11: "elem s [0, 0, Suc 0, Suc 0] = Fin 0"
    using sc [rule_format, of 0 0 1 0] sc [rule_format, of 0 0 1 1]
    by (simp_all add: qk_uniform)
  have w10: "elem w [0, 0, Suc 0, 0] = 1 / 2" and w11: "elem w [0, 0, Suc 0, Suc 0] = 1 / 2"
    using el [rule_format, of 0 0 1 0] el [rule_format, of 0 0 1 1]
    by (simp_all add: sum_lessThan_2 s10 s11)
  have Vel: "elem V [0, 0, k, 0] = elem x [0, k, 0]" if "k < 2" for k
  proof -
    have "elem V [0, 0, k, 0] = linear_out (W_v attn_uniform) x 0 k (0 * 1 + 0)"
      using V that by (simp add: is_heads_def)
    also have "\<dots> = elem x [0, k, 0]"
      using that x by (simp add: attn_uniform_def linear_out_id)
    finally show ?thesis .
  qed
  have shV: "shape V = [1, 2, 2, 1]" using V by (simp add: is_heads_def)
  let ?attn = "mk [1, 2, 2, 1]
      (\<lambda>idx. \<Sum>k<2. elem w [idx ! 0, idx ! 1, idx ! 2, k] * elem V [idx ! 0, idx ! 1, k, idx ! 3])"
  let ?v = "\<lparr>shape = [1, 2, 2], strides = [4, 2, 1], storage = storage ?attn\<rparr>"
  let ?y = "mk [1, 2, 2]
      (\<lambda>idx. (\<Sum>i<2. elem ?v (butlast idx @ [i]) * weight (lin22 id_init) (last idx) i)
                + bias (lin22 id_init) (last idx))"
  have lf: "Linear_forward (lin22 id_init) ?v = Inr ?y"
    by (simp add: Linear_forward_def lin22_def)
  have vw: "view \<lparr>shape = [2, 1, 2, 1], strides = [2 * 1, 2 * (2 * 1), 1, 1],
                   storage = storage ?attn\<rparr>
             [int 1, int 2, num_head attn_uniform * d_head attn_uniform] = Inr ?v"
    by (simp add: view_def infer_size_def numel_def computeStride_def attn_uniform_def)
  have wo: "W_o attn_uniform = lin22 id_init"
    by (simp add: attn_uniform_def)
  have fw: "forward attn_uniform x = Inr ?y"
    by (simp only: forward_tail [OF p w shw shV x] vw sum.case wo lf)
  have "elem ?y [0, 0, 1] = elem ?v [0, 0, 1]"
    by (simp add: elem_mk sum_lessThan_2 lin22_def id_init_def)
  also have "\<dots> = (\<Sum>k<2. elem w [0, 0, 1, k] * elem V [0, 0, k, 0])"
    by (simp add: elem_def mk_def numel_def)
  also have "\<dots> = (elem x [0, 0, 0] + elem x [0, 1, 0]) / 2"
    by (simp add: sum_lessThan_2 w10 w11 Vel)
  finally show ?thesis
    using fw by simp
qed


text \<open>
  Claim C3, at a batch of one. The inputs \<open>x_a\<close> and \<open>x_b\<close> agree at position 0 and
  differ at position 1. The view after \<open>attn.transpose(0, 1)\<close> is accepted for a batch of
  one and reads the storage head by head, so that the row of position 0 holds what head
  0 computed for the positions 0 and 1: the outputs at position 0 differ (entry 1 is
  \<open>1/2\<close> for \<open>x_a\<close> and \<open>3/2\<close> for \<open>x_b\<close>).
\<close>

theorem causality_broken_by_reassembly:
  "elem x_a [0, 0, 0] = elem x_b [0, 0, 0] \<and> elem x_a [0, 0, 1] = elem x_b [0, 0, 1]
   \<and> elem x_a [0, 1, 0] \<noteq> elem x_b [0, 1, 0]
   \<and> \<not> isl (forward attn_uniform x_a) \<and> \<not> isl (forward attn_uniform x_b)
   \<and> elem (projr (forward attn_uniform x_a)) [0, 0, 1] = 1 / 2
   \<and> elem (projr (forward attn_uniform x_b)) [0, 0, 1] = 3 / 2"
proof -
  obtain ya where ya: "forward attn_uniform x_a = Inr ya"
    "elem ya [0, 0, Suc 0] = (elem x_a [0, 0, 0] + elem x_a [0, Suc 0, 0]) / 2"
    using forward_uniform [of x_a] by (auto simp add: x_a_def)
  obtain yb where yb: "forward attn_uniform x_b = Inr yb"
    "elem yb [0, 0, Suc 0] = (elem x_b [0, 0, 0] + elem x_b [0, Suc 0, 0]) / 2"
    using forward_uniform [of x_b] by (auto simp add: x_b_def)
  show ?thesis
    by (simp add: ya yb elem_x_a elem_x_b)
qed

section \<open>Construction of the attention component\<close>






section \<open>The feed-forward width\<close>

lemma MLP_init_notebook:
  "MLP_init P_mlp_zero cfg_notebook =
     Inr \<lparr>mlp_d_embed = 64, d_mlp = 256, up_projection = linear_of 64 256 zero_init,
          down_projection = linear_of 256 64 zero_init\<rparr>"
  by (simp add: MLP_init_def cfg_notebook_def config_get_def nn_Linear_def P_mlp_zero_def
      linear_of_def)

text \<open>
  Claim C8, as stated, fails: with the notebook's configuration (\<open>d_mlp\<close> 256) and with
  the same configuration but \<open>d_mlp\<close> 100, the up-projection has the same output width
  256, four times the embedding width 64.
\<close>

theorem configured_mlp_width_ignored:
  "cfg_notebook ''d_mlp'' = Some 256 \<and> cfg_narrow_mlp ''d_mlp'' = Some 100
   \<and> \<not> isl (MLP_init P_mlp_zero cfg_notebook) \<and> \<not> isl (MLP_init P_mlp_zero cfg_narrow_mlp)
   \<and> out_features (up_projection (projr (MLP_init P_mlp_zero cfg_notebook))) = 256
   \<and> out_features (up_projection (projr (MLP_init P_mlp_zero cfg_narrow_mlp))) = 256"
proof -
  have "MLP_init P_mlp_zero cfg_narrow_mlp = MLP_init P_mlp_zero cfg_notebook"
    by (simp add: MLP_init_def cfg_narrow_mlp_def config_get_def)
  moreover have "cfg_notebook ''d_mlp'' = Some 256" "cfg_narrow_mlp ''d_mlp'' = Some 100"
    by (simp_all add: cfg_notebook_def cfg_narrow_mlp_def)
  ultimately show ?thesis
    by (simp add: MLP_init_notebook linear_of_def)
qed

text \<open>
  Claim C8, amended. The feed-forward hidden width is not read from the configuration:
  whatever is stored (or not) under \<open>d_mlp\<close>, the constructor returns the same result; for
  a non-negative embedding width the up-projection maps it to four times that width and
  the down-projection maps it back.
\<close>

theorem MLP_hidden_width_is_four_times_embedding_width:
  "MLP_init P (cfg(''d_mlp'' := v)) = MLP_init P cfg
   \<and> (cfg ''d_embed'' = Some de \<longrightarrow> 0 \<le> de \<longrightarrow>
        (\<exists>m. MLP_init P cfg = Inr m \<and> d_mlp m = 4 * de
           \<and> in_features (up_projection m) = nat de
           \<and> out_features (up_projection m) = 4 * nat de
           \<and> in_features (down_projection m) = 4 * nat de
           \<and> out_features (down_projection m) = nat de))"
  by (auto simp add: MLP_init_def config_get_def nn_Linear_def)

theorem MLP_hidden_width_is_four_times_embedding_width_witness:
  "cfg_notebook ''d_embed'' = Some 64 \<and> cfg_notebook ''d_mlp'' = Some 256
   \<and> MLP_init P_mlp_zero (cfg_notebook(''d_mlp'' := Some 100)) = MLP_init P_mlp_zero cfg_notebook
   \<and> \<not> isl (MLP_init P_mlp_zero cfg_notebook)
   \<and> out_features (up_projection (projr (MLP_init P_mlp_zero cfg_notebook))) = 4 * nat 64"
proof -
  have h: "cfg_notebook ''d_embed'' = Some 64" "cfg_notebook ''d_mlp'' = Some 256"
    by (simp_all add: cfg_notebook_def)
  note t = MLP_hidden_width_is_four_times_embedding_width [of P_mlp_zero cfg_notebook "Some 100" 64]
  from t have e: "MLP_init P_mlp_zero (cfg_notebook(''d_mlp'' := Some 100)) = MLP_init P_mlp_zero cfg_notebook"
    by blast
  from t h obtain m where "MLP_init P_mlp_zero cfg_notebook = Inr m"
    "out_features (up_projection m) = 4 * nat 64" by auto
  then show ?thesis
    using h e by simp
qed

section \<open>The positional encoding at position 0\<close>

text \<open>
  Claim C9. For an even embedding width and a maximum length of at least 1, every table
  the constructor returns has, in the row of position 0, the value 0 at every even
  column (the sines) and the value 1 at every odd column (the cosines); and the
  constructor returns a table whenever the even width is positive.
\<close>

theorem positional_encoding_row_0:
  assumes ml: "cfg ''max_len'' = Some ml" and de: "cfg ''d_embed'' = Some de"
    and ev: "even de" and m1: "1 \<le> ml"
  shows "(0 < de \<longrightarrow> \<not> isl (PositionalEncoding_init cfg))
       \<and> (\<forall>pe. PositionalEncoding_init cfg = Inr pe \<longrightarrow>
             shape pe = [1, nat ml, nat de]
             \<and> (\<forall>k<nat de. elem pe [0, 0, k] = (if even k then 0 else 1)))"
proof -
  have a: "\<not> isl (PositionalEncoding_init cfg)" if "0 < de"
    using that ev m1 by (simp add: PositionalEncoding_init_def config_get_def ml de)
  have b: "shape pe = [1, nat ml, nat de]
             \<and> (\<forall>k<nat de. elem pe [0, 0, k] = (if even k then 0 else 1))"
    if pe: "PositionalEncoding_init cfg = Inr pe" for pe
  proof -
    let ?f = "\<lambda>idx. if even (idx ! 2)
                       then sin (real (idx ! 1) * div_term de (idx ! 2 div 2))
                       else cos (real (idx ! 1) * div_term de (idx ! 2 div 2))"
    have eq: "pe = mk [1, nat ml, nat de] ?f"
      using pe by (simp add: PositionalEncoding_init_def config_get_def ml de split: if_splits)
    have "elem pe [0, 0, k] = (if even k then 0 else 1)" if k: "k < nat de" for k
    proof -
      have "in_range [1, nat ml, nat de] [0, 0, k]"
        using k m1 by simp
      then have "elem pe [0, 0, k] = ?f [0, 0, k]"
        unfolding eq by (rule elem_mk)
      then show ?thesis by simp
    qed
    then show ?thesis by (simp add: eq)
  qed
  show ?thesis using a b by blast
qed

theorem positional_encoding_row_0_witness:
  "cfg_pe ''max_len'' = Some 3 \<and> cfg_pe ''d_embed'' = Some 4 \<and> even (4::int) \<and> (1::int) \<le> 3
   \<and> \<not> isl (PositionalEncoding_init cfg_pe)
   \<and> elem (projr (PositionalEncoding_init cfg_pe)) [0, 0, 2] = 0
   \<and> elem (projr (PositionalEncoding_init cfg_pe)) [0, 0, 3] = 1"
proof -
  have h: "cfg_pe ''max_len'' = Some 3" "cfg_pe ''d_embed'' = Some 4" "even (4::int)" "(1::int) \<le> 3"
    by (simp_all add: cfg_pe_def)
  note t = positional_encoding_row_0 [OF h]
  from t have ok: "\<not> isl (PositionalEncoding_init cfg_pe)" by simp
  then obtain pe where pe: "PositionalEncoding_init cfg_pe = Inr pe"
    by (cases "PositionalEncoding_init cfg_pe") auto
  with t have r: "\<forall>k<nat 4. elem pe [0, 0, k] = (if even k then 0 else 1)" by blast
  have "elem pe [0, 0, 2] = 0" "elem pe [0, 0, 3] = 1"
    using r [rule_format, of 2] r [rule_format, of 3] by simp_all
  then show ?thesis
    using h ok pe by simp
qed

section \<open>Autoregressive sampling\<close>

lemma hd_sort_key_argmax:
  assumes "vs \<noteq> []"
  shows "is_argmax vs (hd (sort_key (\<lambda>i. - (vs ! i)) [0..<length vs]))"
proof -
  let ?f = "\<lambda>i. - (vs ! i)" and ?n = "length vs"
  let ?xs = "sort_key ?f [0..<?n]"
  have len: "length ?xs = ?n" by simp
  have ne: "?xs \<noteq> []"
  proof
    assume "?xs = []"
    then have "length ?xs = 0" by (simp only: list.size)
    then show False using len assms by simp
  qed
  then obtain m rest where xs: "?xs = m # rest" by (cases ?xs) auto
  have set: "set ?xs = {0..<?n}" by simp
  have "sorted (map ?f ?xs)" by (rule sorted_sort_key)
  then have le: "\<forall>y\<in>set rest. ?f m \<le> ?f y" unfolding xs by simp
  have m: "m < ?n" using set xs by auto
  have "vs ! j \<le> vs ! m" if "j < ?n" for j
  proof -
    have "j \<in> set ?xs" using that set by simp
    then have "j = m \<or> j \<in> set rest" unfolding xs by simp
    then show ?thesis using le by auto
  qed
  then show ?thesis using m by (simp add: is_argmax_def xs)
qed

lemma sample_next_top_1:
  "sample_next logits 1 u =
     (case last_logits logits of Inl e \<Rightarrow> Inl e
      | Inr vs \<Rightarrow> if vs = [] then Inl RuntimeError
                 else Inr (hd (sort_key (\<lambda>i. - (vs ! i)) [0..<length vs])))"
proof (cases "last_logits logits")
  case (Inl e)
  then show ?thesis by (simp add: sample_next_def)
next
  case (Inr vs)
  show ?thesis
  proof (cases "vs = []")
    case True
    then show ?thesis using Inr by (simp add: sample_next_def topk_def)
  next
    case False
    let ?xs = "sort_key (\<lambda>i. - (vs ! i)) [0..<length vs]"
    have len: "length ?xs = length vs" by simp
    have "?xs \<noteq> []"
    proof
      assume "?xs = []"
      then have "length ?xs = 0" by (simp only: list.size)
      then show False using len False by simp
    qed
    then obtain m rest where xs: "?xs = m # rest" by (cases ?xs) auto
    have k: "\<not> int (length vs) < 1" using False by (cases vs) auto
    show ?thesis
      using Inr False k
      by (simp add: sample_next_def topk_def xs softmax_list_def multinomial_def Let_def)
  qed
qed


lemma sample_next_top_1_seed: "sample_next logits 1 u = sample_next logits 1 u'"
  by (simp add: sample_next_top_1)

lemma sample_next_top_1_argmax:
  assumes "sample_next logits 1 u = Inr tok"
  shows "\<exists>vs. last_logits logits = Inr vs \<and> is_argmax vs tok"
proof (cases "last_logits logits")
  case (Inl e)
  then show ?thesis using assms by (simp add: sample_next_top_1)
next
  case (Inr vs)
  then have ne: "vs \<noteq> []" and tok: "tok = hd (sort_key (\<lambda>i. - (vs ! i)) [0..<length vs])"
    using assms by (auto simp add: sample_next_top_1 split: if_splits)
  show ?thesis
    using Inr hd_sort_key_argmax [OF ne] tok by simp
qed

lemma sample_next_top_1_total:
  assumes "last_logits logits = Inr vs" "vs \<noteq> []"
  shows "\<not> isl (sample_next logits 1 u)"
  using assms by (simp add: sample_next_top_1)

lemma generate_top_1_seed:
  "generate LLM rand 1 step n g = generate LLM rand' 1 step' n g"
proof (induction n arbitrary: step step' g)
  case 0
  show ?case by simp
next
  case (Suc n)
  show ?case
  proof (cases "LLM g")
    case (Inl e)
    then show ?thesis by simp
  next
    case (Inr lg)
    have eq: "sample_next lg 1 (rand step) = sample_next lg 1 (rand' step')"
      by (rule sample_next_top_1_seed)
    show ?thesis
    proof (cases "sample_next lg 1 (rand' step')")
      case (Inl e)
      then show ?thesis using Inr eq by simp
    next
      case tok: (Inr tok)
      show ?thesis
        using Inr eq tok Suc.IH [of "Suc step" "g @ [tok]" "Suc step'"] by simp
    qed
  qed
qed

lemma generate_top_1_greedy:
  assumes "generate LLM rand 1 step n g = Inr out"
  shows "length out = length g + n \<and> take (length g) out = g
       \<and> (\<forall>t<n. \<exists>lg vs. LLM (take (length g + t) out) = Inr lg \<and> last_logits lg = Inr vs
               \<and> is_argmax vs (out ! (length g + t)))"
  using assms
proof (induction n arbitrary: step g)
  case 0
  then show ?case by simp
next
  case (Suc n)
  from Suc.prems obtain lg tok where lg: "LLM g = Inr lg"
    and tok: "sample_next lg 1 (rand step) = Inr tok"
    and rest: "generate LLM rand 1 (Suc step) n (g @ [tok]) = Inr out"
    by (auto split: sum.splits)
  from Suc.IH [OF rest] have len: "length out = length g + Suc n"
    and tk: "take (Suc (length g)) out = g @ [tok]"
    and ih: "\<forall>t<n. \<exists>lg vs. LLM (take (Suc (length g) + t) out) = Inr lg \<and> last_logits lg = Inr vs
               \<and> is_argmax vs (out ! (Suc (length g) + t))"
    by simp_all
  have tg: "take (length g) out = g"
  proof -
    have "take (length g) (take (Suc (length g)) out) = take (length g) (g @ [tok])"
      by (simp only: tk)
    then show ?thesis by simp
  qed
  have nth: "out ! length g = tok"
  proof -
    have "take (Suc (length g)) out ! length g = (g @ [tok]) ! length g"
      by (simp only: tk)
    then show ?thesis by simp
  qed
  obtain vs where vs: "last_logits lg = Inr vs" "is_argmax vs tok"
    using sample_next_top_1_argmax [OF tok] by blast
  have step: "\<exists>lg vs. LLM (take (length g + t) out) = Inr lg \<and> last_logits lg = Inr vs
               \<and> is_argmax vs (out ! (length g + t))" if "t < Suc n" for t
  proof (cases t)
    case 0
    then show ?thesis using lg vs tg nth by auto
  next
    case (Suc t')
    then have "t' < n" using that by simp
    then show ?thesis using ih Suc by auto
  qed
  show ?case using len tg step by blast
qed

lemma generate_top_1_total:
  assumes "\<And>h. length g \<le> length h \<Longrightarrow> length h < length g + n \<Longrightarrow>
             \<exists>lg vs. LLM h = Inr lg \<and> last_logits lg = Inr vs \<and> vs \<noteq> []"
  shows "\<not> isl (generate LLM rand 1 step n g)"
  using assms
proof (induction n arbitrary: step g)
  case 0
  show ?case by simp
next
  case (Suc n)
  obtain lg vs where lg: "LLM g = Inr lg" "last_logits lg = Inr vs" "vs \<noteq> []"
    using Suc.prems [of g] by auto
  obtain tok where tok: "sample_next lg 1 (rand step) = Inr tok"
    using sample_next_top_1_total [OF lg(2,3), of "rand step"]
    by (cases "sample_next lg 1 (rand step)") auto
  have "\<not> isl (generate LLM rand 1 (Suc step) n (g @ [tok]))"
  proof (rule Suc.IH)
    fix h :: "nat list"
    assume "length (g @ [tok]) \<le> length h" "length h < length (g @ [tok]) + n"
    then show "\<exists>lg vs. LLM h = Inr lg \<and> last_logits lg = Inr vs \<and> vs \<noteq> []"
      using Suc.prems [of h] by simp
  qed
  then show ?case using lg tok by simp
qed

text \<open>
  Claim C7. With \<open>top_k = 1\<close>, for every prompt, token budget and sequence of draws:
  the result does not depend on the draws; whenever \<open>inference\<close> returns a string, it is
  the decoding of the prompt's tokens followed by exactly \<open>N\<close> generated tokens, each of
  which has a highest logit among the logits the model gives at the last position of
  the sequence before it; and when the model answers logits over at least one token for
  every sequence of the lengths that occur, the loop ends with exactly \<open>N\<close> tokens
  appended.
\<close>

theorem top_k_1_sampling_is_greedy:
  "snd (inference LLM rand model tk prompt N 1) = snd (inference LLM rand' model tk prompt N 1)
   \<and> (\<forall>s. snd (inference LLM rand model tk prompt N 1) = Inr s \<longrightarrow>
        (\<exists>ids out. encode tk prompt = Inr ids \<and> generate LLM rand 1 0 (nat N) ids = Inr out
           \<and> decode tk out = Inr s
           \<and> length out = length ids + nat N \<and> take (length ids) out = ids
           \<and> (\<forall>t<nat N. \<exists>lg vs. LLM (take (length ids + t) out) = Inr lg
                  \<and> last_logits lg = Inr vs \<and> is_argmax vs (out ! (length ids + t)))))
   \<and> (\<forall>ids. encode tk prompt = Inr ids \<longrightarrow>
        (\<forall>g. length ids \<le> length g \<and> length g < length ids + nat N \<longrightarrow>
             (\<exists>lg vs. LLM g = Inr lg \<and> last_logits lg = Inr vs \<and> vs \<noteq> [])) \<longrightarrow>
        (\<exists>out. generate LLM rand 1 0 (nat N) ids = Inr out
           \<and> length out = length ids + nat N))"
proof (intro conjI allI impI)
  show "snd (inference LLM rand model tk prompt N 1) = snd (inference LLM rand' model tk prompt N 1)"
    using generate_top_1_seed [of LLM rand 0 "nat N" _ rand' 0]
    by (simp add: inference_def split: sum.splits)
next
  fix s assume "snd (inference LLM rand model tk prompt N 1) = Inr s"
  then obtain ids out where e: "encode tk prompt = Inr ids"
    and g: "generate LLM rand 1 0 (nat N) ids = Inr out" and d: "decode tk out = Inr s"
    by (auto simp add: inference_def split: sum.splits)
  show "\<exists>ids out. encode tk prompt = Inr ids \<and> generate LLM rand 1 0 (nat N) ids = Inr out
           \<and> decode tk out = Inr s
           \<and> length out = length ids + nat N \<and> take (length ids) out = ids
           \<and> (\<forall>t<nat N. \<exists>lg vs. LLM (take (length ids + t) out) = Inr lg
                  \<and> last_logits lg = Inr vs \<and> is_argmax vs (out ! (length ids + t)))"
    using e g d generate_top_1_greedy [OF g] by blast
next
  fix ids
  assume e: "encode tk prompt = Inr ids"
    and a: "\<forall>g. length ids \<le> length g \<and> length g < length ids + nat N \<longrightarrow>
             (\<exists>lg vs. LLM g = Inr lg \<and> last_logits lg = Inr vs \<and> vs \<noteq> [])"
  have "\<not> isl (generate LLM rand 1 0 (nat N) ids)"
    using a by (intro generate_top_1_total) blast
  then obtain out where g: "generate LLM rand 1 0 (nat N) ids = Inr out"
    by (cases "generate LLM rand 1 0 (nat N) ids") auto
  then show "\<exists>out. generate LLM rand 1 0 (nat N) ids = Inr out \<and> length out = length ids + nat N"
    using generate_top_1_greedy [OF g] by blast
qed

lemma last_logits_demo:
  "0 < length g \<Longrightarrow> LLM_demo g = Inr lg \<Longrightarrow> last_logits lg = Inr [0, 1, 0]"
  by (auto simp add: LLM_demo_def last_logits_def upt_rec elem_mk)

lemma generate_demo: "generate LLM_demo rand 1 0 2 [0] = Inr [0, 1, 1]"
proof -
  have s: "sample_next lg 1 u = Inr 1" if "last_logits lg = Inr [0, 1, 0]" for lg u
    using that by (simp add: sample_next_top_1 upt_rec)
  have a: "sample_next (projr (LLM_demo g)) 1 u = Inr 1" if "0 < length g" for g u
    using that by (intro s last_logits_demo [of g]) (simp_all add: LLM_demo_def)
  show ?thesis
    unfolding numeral_2_eq_2 using a [of "[0]"] a [of "[0, 1]"]
    by (simp add: LLM_demo_def)
qed

theorem top_k_1_sampling_is_greedy_witness:
  "encode tk_demo ''a'' = Inr [0]
   \<and> snd (inference LLM_demo rand_lo m_demo tk_demo ''a'' 2 1) = Inr ''abb''
   \<and> snd (inference LLM_demo rand_hi m_demo tk_demo ''a'' 2 1) = Inr ''abb''
   \<and> length (projr (generate LLM_demo rand_lo 1 0 (nat 2) [0])) = 1 + nat 2
   \<and> is_argmax [0, 1, 0] (projr (generate LLM_demo rand_lo 1 0 (nat 2) [0]) ! 2)"
proof -
  note t = top_k_1_sampling_is_greedy [of LLM_demo rand_lo m_demo tk_demo "''a''" 2 rand_hi]
  have e: "encode tk_demo ''a'' = Inr [0]"
    by (simp add: tk_demo_def)
  have r: "snd (inference LLM_demo rand_lo m_demo tk_demo ''a'' 2 1) = Inr ''abb''"
    unfolding inference_def e by (simp add: generate_demo tk_demo_def)
  from t have seed: "snd (inference LLM_demo rand_lo m_demo tk_demo ''a'' 2 1)
      = snd (inference LLM_demo rand_hi m_demo tk_demo ''a'' 2 1)"
    by (rule conjunct1)
  from t r obtain ids out where o: "encode tk_demo ''a'' = Inr ids"
    "generate LLM_demo rand_lo 1 0 (nat 2) ids = Inr out"
    "length out = length ids + nat 2"
    "\<forall>t<nat 2. \<exists>lg vs. LLM_demo (take (length ids + t) out) = Inr lg
        \<and> last_logits lg = Inr vs \<and> is_argmax vs (out ! (length ids + t))"
    by blast
  have ids: "ids = [0]" using o(1) e by simp
  obtain lg vs where l: "LLM_demo (take (1 + 1) out) = Inr lg" "last_logits lg = Inr vs"
    "is_argmax vs (out ! (1 + 1))"
    using o(4) [rule_format, of 1] ids by auto
  have "vs = [0, 1, 0]"
    using last_logits_demo [OF _ l(1)] l(2) o(3) ids by simp
  then have am: "is_argmax [0, 1, 0] (projr (generate LLM_demo rand_lo 1 0 (nat 2) [0]) ! 2)"
    using o(2) l(3) ids by (simp add: numeral_2_eq_2)
  have len: "length (projr (generate LLM_demo rand_lo 1 0 (nat 2) [0])) = 1 + nat 2"
    using o(2,3) ids by simp
  show ?thesis
    using e r seed am len by (simp only: simp_thms)
qed


text \<open>
  Claim C10. The string \<open>inference\<close> returns is the same for any two values of its model
  argument, all else (the global \<open>LLM\<close>, the draws, the tokenizer, the prompt, the token
  budget and \<open>top_k\<close>) being equal: the argument is only put in evaluation mode.
\<close>

theorem inference_ignores_model_argument:
  "snd (inference LLM rand m1 tokenizer prompt max_new_tokens top_k)
     = snd (inference LLM rand m2 tokenizer prompt max_new_tokens top_k)"
  by (simp add: inference_def)

section \<open>The Transformer block\<close>

lemma infer_size_3:
  assumes "infer_size [int B, int L, c] n = Inr sh"
  shows "\<exists>C. sh = [B, L, C]"
  using assms by (auto simp add: infer_size_def Let_def split: if_splits list.splits)

lemma forward_shape:
  assumes f: "forward a x = Inr y" and x: "shape x = [B, L, D]"
  shows "shape y = [B, L, out_features (W_o a)]"
proof -
  from f obtain attn_t attn_v where
    v: "view attn_t [int (shape x ! 0), int (shape x ! 1), num_head a * d_head a] = Inr attn_v"
    and l: "Linear_forward (W_o a) attn_v = Inr y"
    by (auto simp add: forward_def split: sum.splits prod.splits)
  from v obtain sh where i: "infer_size [int B, int L, num_head a * d_head a] (numel (shape attn_t)) = Inr sh"
    and s: "shape attn_v = sh"
    by (auto simp add: view_def x split: sum.splits option.splits)
  obtain C where C: "sh = [B, L, C]" using infer_size_3 [OF i] by blast
  show ?thesis
    using l by (auto simp add: Linear_forward_def s C split: if_splits)
qed

lemma broadcast_rev_same: "broadcast_rev xs xs = Some xs"
  by (induction xs) simp_all

lemma pointwise_same_shape:
  assumes "shape x = [B, L, D]" "shape a = [B, L, D]"
  shows "\<exists>s. pointwise (+) x a = Inr s \<and> shape s = [B, L, D]
           \<and> (\<forall>b<B. \<forall>l<L. \<forall>c<D. elem s [b, l, c] = elem x [b, l, c] + elem a [b, l, c])"
proof -
  have bs: "broadcast_shapes [B, L, D] [B, L, D] = Some [B, L, D]"
    unfolding broadcast_shapes_def broadcast_rev_same by simp
  let ?s = "mk [B, L, D] (\<lambda>idx. elem x (bidx [B, L, D] idx) + elem a (bidx [B, L, D] idx))"
  have p: "pointwise (+) x a = Inr ?s"
    by (simp add: pointwise_def assms bs)
  have "elem ?s [b, l, c] = elem x [b, l, c] + elem a [b, l, c]" if "b < B" "l < L" "c < D" for b l c
  proof -
    have "bidx [B, L, D] [b, l, c] = [b, l, c]"
      using that by (auto simp add: bidx_def)
    then show ?thesis using that by (simp add: elem_mk)
  qed
  then show ?thesis using p by (intro exI [of _ ?s]) simp
qed

lemma rms_norm_row_cong:
  assumes "\<And>k. k < normalized_shape n \<Longrightarrow> v k = v' k" and "c < normalized_shape n"
  shows "rms_norm_row n v c = rms_norm_row n v' c"
proof -
  have "(\<Sum>i<normalized_shape n. (v i)\<^sup>2) = (\<Sum>i<normalized_shape n. (v' i)\<^sup>2)"
    using assms(1) by (intro sum.cong) simp_all
  then show ?thesis
    using assms by (simp add: rms_norm_row_def)
qed

lemma RMSNorm_forward_rank3:
  assumes "shape x = [B, L, D]" "normalized_shape n = D"
  shows "\<exists>y. RMSNorm_forward n x = Inr y \<and> shape y = [B, L, D]
           \<and> (\<forall>b<B. \<forall>l<L. \<forall>c<D. elem y [b, l, c] = rms_norm_row n (\<lambda>k. elem x [b, l, k]) c)"
proof -
  let ?y = "mk [B, L, D] (\<lambda>idx. rms_norm_row n (\<lambda>k. elem x (butlast idx @ [k])) (last idx))"
  have "RMSNorm_forward n x = Inr ?y"
    by (simp add: RMSNorm_forward_def assms)
  moreover have "elem ?y [b, l, c] = rms_norm_row n (\<lambda>k. elem x [b, l, k]) c"
    if "b < B" "l < L" "c < D" for b l c
    using that by (simp add: elem_mk)
  ultimately show ?thesis by (intro exI [of _ ?y]) simp
qed

lemma MLP_forward_rank3:
  assumes "shape x = [B, L, D]" "in_features (up_projection m) = D"
    "in_features (down_projection m) = out_features (up_projection m)"
  shows "\<exists>y. MLP_forward m x = Inr y \<and> shape y = [B, L, out_features (down_projection m)]"
  using assms by (simp add: MLP_forward_def Linear_forward_def tmap_def)


lemma Transformer_init_parts:
  assumes de: "cfg ''d_embed'' = Some de" and nn: "0 \<le> de"
    and t: "Transformer_init P cfg = Inr t"
  shows "selfAttention_init (T_attention P) cfg = Inr (attention t)"
    and "normalized_shape (rmsnorm1 t) = nat de" and "normalized_shape (rmsnorm2 t) = nat de"
    and "in_features (up_projection (mlp t)) = nat de"
    and "in_features (down_projection (mlp t)) = out_features (up_projection (mlp t))"
    and "out_features (down_projection (mlp t)) = nat de"
  using t nn
  by (auto simp add: Transformer_init_def config_get_def de nn_RMSNorm_def MLP_init_def
      nn_Linear_def split: sum.splits if_splits)

text \<open>
  Claim C6. For a block built from a configuration with \<open>1 \<le> d_head \<le> d_embed\<close> and
  every input \<open>x\<close> of shape \<open>[B, L, d_embed]\<close>: when the attention raises, the block
  raises the same error; when the attention returns \<open>a\<close>, the block returns
  \<open>out = rmsnorm2 (y + mlp y)\<close> where \<open>y = rmsnorm1 (x + a)\<close>, entry by entry, and
  \<open>y\<close>, \<open>mlp y\<close> and \<open>out\<close> have the shape of \<open>x\<close>. Both residual additions come before
  their normalisation; there is no other order.
\<close>

theorem transformer_block_post_normalization:
  assumes de: "cfg ''d_embed'' = Some de" and dh: "cfg ''d_head'' = Some dh"
    and pos: "0 < dh" and le: "dh \<le> de"
    and t: "Transformer_init P cfg = Inr t"
    and x: "shape x = [B, L, nat de]"
  shows "(\<forall>e. forward (attention t) x = Inl e \<longrightarrow> Transformer_forward t x = Inl e)
       \<and> (\<forall>a. forward (attention t) x = Inr a \<longrightarrow>
            (\<exists>y m out. Transformer_forward t x = Inr out \<and> MLP_forward (mlp t) y = Inr m
               \<and> shape y = [B, L, nat de] \<and> shape m = [B, L, nat de]
               \<and> shape out = [B, L, nat de]
               \<and> (\<forall>b<B. \<forall>l<L. \<forall>c<nat de.
                     elem y [b, l, c] =
                       rms_norm_row (rmsnorm1 t) (\<lambda>k. elem x [b, l, k] + elem a [b, l, k]) c
                   \<and> elem out [b, l, c] =
                       rms_norm_row (rmsnorm2 t) (\<lambda>k. elem y [b, l, k] + elem m [b, l, k]) c)))"
proof -
  let ?D = "nat de"
  have nn: "0 \<le> de" using pos le by simp
  note parts = Transformer_init_parts [OF de nn t]
  have wo: "out_features (W_o (attention t)) = ?D"
    using selfAttention_init_ok [OF de dh pos le, of "T_attention P"] parts(1) by auto
  have err: "Transformer_forward t x = Inl e" if "forward (attention t) x = Inl e" for e
    using that by (simp add: Transformer_forward_def)
  have ok: "\<exists>y m out. Transformer_forward t x = Inr out \<and> MLP_forward (mlp t) y = Inr m
               \<and> shape y = [B, L, ?D] \<and> shape m = [B, L, ?D] \<and> shape out = [B, L, ?D]
               \<and> (\<forall>b<B. \<forall>l<L. \<forall>c<?D.
                     elem y [b, l, c] =
                       rms_norm_row (rmsnorm1 t) (\<lambda>k. elem x [b, l, k] + elem a [b, l, k]) c
                   \<and> elem out [b, l, c] =
                       rms_norm_row (rmsnorm2 t) (\<lambda>k. elem y [b, l, k] + elem m [b, l, k]) c)"
    if a: "forward (attention t) x = Inr a" for a
  proof -
    have sha: "shape a = [B, L, ?D]"
      using forward_shape [OF a x] wo by simp
    obtain x1 where x1: "pointwise (+) x a = Inr x1" "shape x1 = [B, L, ?D]"
      "\<And>b l c. b < B \<Longrightarrow> l < L \<Longrightarrow> c < ?D \<Longrightarrow> elem x1 [b, l, c] = elem x [b, l, c] + elem a [b, l, c]"
      using pointwise_same_shape [OF x sha] by blast
    obtain y where y: "RMSNorm_forward (rmsnorm1 t) x1 = Inr y" "shape y = [B, L, ?D]"
      "\<And>b l c. b < B \<Longrightarrow> l < L \<Longrightarrow> c < ?D \<Longrightarrow>
         elem y [b, l, c] = rms_norm_row (rmsnorm1 t) (\<lambda>k. elem x1 [b, l, k]) c"
      using RMSNorm_forward_rank3 [OF x1(2) parts(2)] by blast
    obtain m where m: "MLP_forward (mlp t) y = Inr m" "shape m = [B, L, ?D]"
      using MLP_forward_rank3 [OF y(2) parts(4) parts(5)] parts(6) by auto
    obtain x3 where x3: "pointwise (+) y m = Inr x3" "shape x3 = [B, L, ?D]"
      "\<And>b l c. b < B \<Longrightarrow> l < L \<Longrightarrow> c < ?D \<Longrightarrow> elem x3 [b, l, c] = elem y [b, l, c] + elem m [b, l, c]"
      using pointwise_same_shape [OF y(2) m(2)] by blast
    obtain out where out: "RMSNorm_forward (rmsnorm2 t) x3 = Inr out" "shape out = [B, L, ?D]"
      "\<And>b l c. b < B \<Longrightarrow> l < L \<Longrightarrow> c < ?D \<Longrightarrow>
         elem out [b, l, c] = rms_norm_row (rmsnorm2 t) (\<lambda>k. elem x3 [b, l, k]) c"
      using RMSNorm_forward_rank3 [OF x3(2) parts(3)] by blast
    have tf: "Transformer_forward t x = Inr out"
      by (simp add: Transformer_forward_def a x1(1) y(1) m(1) x3(1) out(1))
    have ey: "elem y [b, l, c] =
        rms_norm_row (rmsnorm1 t) (\<lambda>k. elem x [b, l, k] + elem a [b, l, k]) c"
      if r: "b < B" "l < L" "c < ?D" for b l c
    proof -
      have "rms_norm_row (rmsnorm1 t) (\<lambda>k. elem x1 [b, l, k]) c =
          rms_norm_row (rmsnorm1 t) (\<lambda>k. elem x [b, l, k] + elem a [b, l, k]) c"
        using r x1(3) by (intro rms_norm_row_cong) (simp_all add: parts(2))
      then show ?thesis using y(3) [OF r] by simp
    qed
    have eo: "elem out [b, l, c] =
        rms_norm_row (rmsnorm2 t) (\<lambda>k. elem y [b, l, k] + elem m [b, l, k]) c"
      if r: "b < B" "l < L" "c < ?D" for b l c
    proof -
      have "rms_norm_row (rmsnorm2 t) (\<lambda>k. elem x3 [b, l, k]) c =
          rms_norm_row (rmsnorm2 t) (\<lambda>k. elem y [b, l, k] + elem m [b, l, k]) c"
        using r x3(3) by (intro rms_norm_row_cong) (simp_all add: parts(3))
      then show ?thesis using out(3) [OF r] by simp
    qed
    show ?thesis
      using tf m y(2) out(2) ey eo by blast
  qed
  show ?thesis using err ok by blast
qed

lemma init_block: "Transformer_init P_block cfg_2_1 = Inr block_demo"
proof -
  have c: "config_get cfg_2_1 ''d_embed'' = Inr 2"
    by (simp add: cfg_2_1_def config_get_def)
  have P: "T_attention P_block = P_uniform" "T_rmsnorm1 P_block = (\<lambda>k. 1)"
    "T_mlp P_block = P_mlp_zero" "T_rmsnorm2 P_block = (\<lambda>k. 1)"
    by (simp_all add: P_block_def)
  have m: "MLP_init P_mlp_zero cfg_2_1 = Inr (mlp block_demo)"
    by (simp add: MLP_init_def c nn_Linear_def P_mlp_zero_def block_demo_def linear_of_def)
  have n: "nn_RMSNorm (\<lambda>k. 1) 2 = Inr (rmsnorm1 block_demo)"
    and n12: "rmsnorm1 block_demo = rmsnorm2 block_demo"
    by (simp_all add: nn_RMSNorm_def block_demo_def)
  have "Transformer_init P_block cfg_2_1 =
      Inr \<lparr>attention = attn_uniform, rmsnorm1 = rmsnorm1 block_demo, mlp = mlp block_demo,
           rmsnorm2 = rmsnorm1 block_demo\<rparr>"
    by (simp only: Transformer_init_def P init_uniform c m n sum.case)
  then show ?thesis
    by (simp add: block_demo_def)
qed

theorem transformer_block_post_normalization_witness:
  "cfg_2_1 ''d_embed'' = Some 2 \<and> cfg_2_1 ''d_head'' = Some 1
   \<and> Transformer_init P_block cfg_2_1 = Inr block_demo \<and> shape x_a = [1, 2, nat 2]
   \<and> \<not> isl (forward (attention block_demo) x_a)
   \<and> \<not> isl (Transformer_forward block_demo x_a)
   \<and> shape (projr (Transformer_forward block_demo x_a)) = [1, 2, 2]"
proof -
  have h: "cfg_2_1 ''d_embed'' = Some 2" "cfg_2_1 ''d_head'' = Some 1" "(0::int) < 1" "(1::int) \<le> 2"
    and x: "shape x_a = [1, 2, nat 2]"
    by (simp_all add: cfg_2_1_def x_a_def)
  note t = transformer_block_post_normalization [OF h init_block x]
  have att: "attention block_demo = attn_uniform" by (simp add: block_demo_def)
  obtain a where a: "forward (attention block_demo) x_a = Inr a"
    using forward_uniform [of x_a] x by (auto simp add: att)
  with t obtain out where "Transformer_forward block_demo x_a = Inr out"
    "shape out = [1, 2, nat 2]" by blast
  then show ?thesis
    using h init_block x a by simp
qed

end
